theory Spec2Isabelle
  imports Main "HOL-Library.Monad_Syntax"
begin

section \<open>The segment-tree bitset of \<^verbatim>\<open>segbitset.h\<close>\<close>

text \<open>
  The class \<^verbatim>\<open>segbitset<N>\<close> owns one \<^verbatim>\<open>std::bitset<1 + (N << 2)>\<close> called
  \<^verbatim>\<open>tree\<close>. It is modelled as a \<^typ>\<open>bool list\<close> of that length; the template
  parameter \<open>N\<close> is an explicit argument of every operation. \<^verbatim>\<open>size_t\<close> values are
  natural numbers: every index the code computes from a valid position is bounded by
  the size of the tree, so no arithmetic wraps there.

  \<^verbatim>\<open>std::bitset::operator[]\<close> is unchecked: an index outside the bitset has no defined
  behaviour. Reads and writes therefore return an option, and so does every operation
  built from them: \<open>None\<close> stands for "no defined result" (an access outside the
  bitset, or a recursion that never returns).
\<close>

subsection \<open>Bit arrays\<close>

definition rd :: "bool list \<Rightarrow> nat \<Rightarrow> bool option" where
  "rd t x = (if x < length t then Some (t ! x) else None)"

definition wr :: "bool list \<Rightarrow> nat \<Rightarrow> bool \<Rightarrow> bool list option" where
  "wr t x v = (if x < length t then Some (t[x := v]) else None)"

text \<open>The exception of the position-addressed operations, and what a call yields.\<close>

datatype error = out_of_range

datatype 'a outcome = Returns 'a | Throws error

subsection \<open>Index arithmetic and summaries\<close>

definition ls :: "nat \<Rightarrow> nat" where
  "ls x = 2 * x"

definition rs :: "nat \<Rightarrow> nat" where
  "rs x = 2 * x + 1"

definition pushup :: "nat \<Rightarrow> bool list \<Rightarrow> bool list option" where
  "pushup x t = do { a \<leftarrow> rd t (ls x); b \<leftarrow> rd t (rs x); wr t x (a \<or> b) }"

function pushup_to_root :: "nat \<Rightarrow> bool list \<Rightarrow> bool list option" where
  "pushup_to_root x t =
     (if x \<noteq> 0
      then do { a \<leftarrow> rd t (ls x); b \<leftarrow> rd t (rs x); t' \<leftarrow> wr t x (a \<or> b);
                pushup_to_root (x div 2) t' }
      else Some t)"
  by pat_completeness auto
termination
  by (relation "measure fst") auto

declare pushup_to_root.simps [simp del]

subsection \<open>Construction\<close>

text \<open>
  Every range the recursions receive starts at a position \<open>l \<ge> 1\<close> (the root range is
  \<open>[1, N]\<close> and splitting only raises \<open>l\<close>), so \<^verbatim>\<open>l - 1\<close> never wraps. With \<open>l > r\<close>, which
  is the root range of capacity 0, the recursions of the source never reach \<open>l == r\<close>;
  the theorems are about capacities \<open>N > 0\<close>.
\<close>

partial_function (option) build ::
  "bool list \<Rightarrow> nat \<Rightarrow> nat \<Rightarrow> nat \<Rightarrow> bool list \<Rightarrow> bool list option" where
  "build a l r x t =
     (if l = r then do { v \<leftarrow> rd a (l - 1); wr t x v }
      else do {
        let m = (l + r) div 2;
        t1 \<leftarrow> build a l m (ls x) t;
        t2 \<leftarrow> build a (m + 1) r (rs x) t1;
        pushup x t2 })"

declare build.simps [code]

text \<open>The default constructor leaves every slot of the tree false.\<close>

definition segbitset_empty :: "nat \<Rightarrow> bool list" where
  "segbitset_empty N = replicate (1 + 4 * N) False"

definition segbitset_from :: "nat \<Rightarrow> bool list \<Rightarrow> bool list option" where
  "segbitset_from N a = build a 1 N 1 (segbitset_empty N)"

text \<open>The copy constructor copies the whole tree.\<close>

definition segbitset_copy :: "bool list \<Rightarrow> bool list" where
  "segbitset_copy o_tree = o_tree"

subsection \<open>Point operations\<close>

partial_function (option) find_rec :: "nat \<Rightarrow> nat \<Rightarrow> nat \<Rightarrow> nat \<Rightarrow> nat option" where
  "find_rec pos l r x =
     (if l \<noteq> r
      then (let m = (l + r) div 2
            in if pos \<le> m then find_rec pos l m (ls x) else find_rec pos (m + 1) r (rs x))
      else Some x)"

declare find_rec.simps [code]

definition test :: "nat \<Rightarrow> bool list \<Rightarrow> nat \<Rightarrow> (bool outcome \<times> bool list) option" where
  "test N t pos =
     (if pos \<ge> N then Some (Throws out_of_range, t)
      else do { x \<leftarrow> find_rec (pos + 1) 1 N 1; b \<leftarrow> rd t x; Some (Returns b, t) })"

definition any_bit :: "bool list \<Rightarrow> bool option" where
  "any_bit t = rd t 1"

definition none :: "bool list \<Rightarrow> bool option" where
  "none t = do { b \<leftarrow> rd t 1; Some (\<not> b) }"

text \<open>\<^verbatim>\<open>set()\<close> is \<^verbatim>\<open>tree.set()\<close>: every slot of the tree becomes true.\<close>

definition set_all :: "bool list \<Rightarrow> bool list" where
  "set_all t = replicate (length t) True"

definition set_pos ::
  "nat \<Rightarrow> bool list \<Rightarrow> nat \<Rightarrow> bool \<Rightarrow> (unit outcome \<times> bool list) option" where
  "set_pos N t pos value =
     (if pos \<ge> N then Some (Throws out_of_range, t)
      else do {
        x \<leftarrow> find_rec (pos + 1) 1 N 1;
        t1 \<leftarrow> wr t x True;
        t2 \<leftarrow> pushup_to_root (x div 2) t1;
        Some (Returns (), t2) })"

definition reset_pos :: "nat \<Rightarrow> bool list \<Rightarrow> nat \<Rightarrow> (unit outcome \<times> bool list) option" where
  "reset_pos N t pos =
     (if pos \<ge> N then Some (Throws out_of_range, t)
      else do {
        x \<leftarrow> find_rec (pos + 1) 1 N 1;
        t1 \<leftarrow> wr t x False;
        t2 \<leftarrow> pushup_to_root (x div 2) t1;
        Some (Returns (), t2) })"

definition flip_pos :: "nat \<Rightarrow> bool list \<Rightarrow> nat \<Rightarrow> (unit outcome \<times> bool list) option" where
  "flip_pos N t pos =
     (if pos \<ge> N then Some (Throws out_of_range, t)
      else do {
        x \<leftarrow> find_rec (pos + 1) 1 N 1;
        b \<leftarrow> rd t x;
        t1 \<leftarrow> wr t x (\<not> b);
        t2 \<leftarrow> pushup_to_root (x div 2) t1;
        Some (Returns (), t2) })"

subsection \<open>Whole-structure reset and flip\<close>

partial_function (option) reset_rec ::
  "nat \<Rightarrow> nat \<Rightarrow> nat \<Rightarrow> bool list \<Rightarrow> bool list option" where
  "reset_rec l r x t =
     do {
       b \<leftarrow> rd t x;
       if \<not> b then Some t
       else if l = r then wr t x False
       else do {
         let m = (l + r) div 2;
         t1 \<leftarrow> reset_rec l m (ls x) t;
         t2 \<leftarrow> reset_rec (m + 1) r (rs x) t1;
         pushup x t2 } }"

declare reset_rec.simps [code]

definition reset_all :: "nat \<Rightarrow> bool list \<Rightarrow> bool list option" where
  "reset_all N t = reset_rec 1 N 1 t"

partial_function (option) flip_rec ::
  "nat \<Rightarrow> nat \<Rightarrow> nat \<Rightarrow> bool list \<Rightarrow> bool list option" where
  "flip_rec l r x t =
     (if l = r then do { b \<leftarrow> rd t x; wr t x (\<not> b) }
      else do {
        let m = (l + r) div 2;
        t1 \<leftarrow> flip_rec l m (ls x) t;
        t2 \<leftarrow> flip_rec (m + 1) r (rs x) t1;
        pushup x t2 })"

declare flip_rec.simps [code]

definition flip_all :: "nat \<Rightarrow> bool list \<Rightarrow> bool list option" where
  "flip_all N t = flip_rec 1 N 1 t"

text \<open>\<^verbatim>\<open>operator~\<close> of the structure: flip a copy.\<close>

definition op_not :: "nat \<Rightarrow> bool list \<Rightarrow> bool list option" where
  "op_not N t = flip_all N (segbitset_copy t)"

subsection \<open>Equality\<close>

text \<open>
  The second recursive call of \<^verbatim>\<open>__equal\<close> passes \<^verbatim>\<open>r, m + 1\<close> as the range of the
  right child; the model passes the same arguments.
\<close>

partial_function (option) equal_rec ::
  "bool list \<Rightarrow> bool list \<Rightarrow> nat \<Rightarrow> nat \<Rightarrow> nat \<Rightarrow> bool option" where
  "equal_rec t rhs l r x =
     do {
       a \<leftarrow> rd t x;
       b \<leftarrow> rd rhs x;
       if a \<noteq> b then Some False
       else if \<not> a \<and> \<not> b then Some True
       else if l = r then Some True
       else do {
         let m = (l + r) div 2;
         e1 \<leftarrow> equal_rec t rhs l m (ls x);
         if e1 then equal_rec t rhs r (m + 1) (rs x) else Some False } }"

declare equal_rec.simps [code]

definition op_eq :: "nat \<Rightarrow> bool list \<Rightarrow> bool list \<Rightarrow> bool option" where
  "op_eq N t rhs = equal_rec t rhs 1 N 1"

subsection \<open>Export\<close>

partial_function (option) to_bitset_rec ::
  "bool list \<Rightarrow> nat \<Rightarrow> nat \<Rightarrow> nat \<Rightarrow> bool list \<Rightarrow> bool list option" where
  "to_bitset_rec t l r x a =
     (if l = r then do { b \<leftarrow> rd t x; wr a (l - 1) b }
      else do {
        let m = (l + r) div 2;
        a1 \<leftarrow> to_bitset_rec t l m (ls x) a;
        to_bitset_rec t (m + 1) r (rs x) a1 })"

declare to_bitset_rec.simps [code]

text \<open>\<^verbatim>\<open>to_bitset()\<close> starts from a default-constructed (all false) \<^verbatim>\<open>std::bitset<N>\<close>.\<close>

definition to_bitset :: "nat \<Rightarrow> bool list \<Rightarrow> bool list option" where
  "to_bitset N t = to_bitset_rec t 1 N 1 (replicate N False)"

text \<open>\<^verbatim>\<open>to_bitset(std::bitset<N>& a)\<close> fills the caller's bitset.\<close>

definition to_bitset_into :: "nat \<Rightarrow> bool list \<Rightarrow> bool list \<Rightarrow> bool list option" where
  "to_bitset_into N t a = to_bitset_rec t 1 N 1 a"

subsection \<open>Pairwise operations\<close>

text \<open>
  \<^verbatim>\<open>operator&=\<close>, \<^verbatim>\<open>operator|=\<close> and \<^verbatim>\<open>operator^=\<close> write the tree of \<^verbatim>\<open>*this\<close> and
  read the tree of \<^verbatim>\<open>other\<close>, a reference that may denote the same object. The two
  objects are addresses in a store of trees, so that \<open>this = other\<close> is the aliased call.
\<close>

type_synonym store = "nat \<Rightarrow> bool list"

partial_function (option) and_assign_rec ::
  "nat \<Rightarrow> nat \<Rightarrow> nat \<Rightarrow> nat \<Rightarrow> nat \<Rightarrow> store \<Rightarrow> store option" where
  "and_assign_rec this other l r x h =
     do {
       c \<leftarrow> rd (h this) x;
       if \<not> c then Some h
       else if l = r then do {
         a \<leftarrow> rd (h this) x;
         b \<leftarrow> rd (h other) x;
         t' \<leftarrow> wr (h this) x (a \<and> b);
         Some (h(this := t')) }
       else do {
         let m = (l + r) div 2;
         h1 \<leftarrow> and_assign_rec this other l m (ls x) h;
         h2 \<leftarrow> and_assign_rec this other (m + 1) r (rs x) h1;
         t' \<leftarrow> pushup x (h2 this);
         Some (h2(this := t')) } }"

declare and_assign_rec.simps [code]

definition op_and_assign :: "nat \<Rightarrow> nat \<Rightarrow> nat \<Rightarrow> store \<Rightarrow> store option" where
  "op_and_assign N this other h = and_assign_rec this other 1 N 1 h"

partial_function (option) or_assign_rec ::
  "nat \<Rightarrow> nat \<Rightarrow> nat \<Rightarrow> nat \<Rightarrow> nat \<Rightarrow> store \<Rightarrow> store option" where
  "or_assign_rec this other l r x h =
     do {
       c \<leftarrow> rd (h other) x;
       if \<not> c then Some h
       else if l = r then do {
         a \<leftarrow> rd (h this) x;
         b \<leftarrow> rd (h other) x;
         t' \<leftarrow> wr (h this) x (a \<or> b);
         Some (h(this := t')) }
       else do {
         let m = (l + r) div 2;
         h1 \<leftarrow> or_assign_rec this other l m (ls x) h;
         h2 \<leftarrow> or_assign_rec this other (m + 1) r (rs x) h1;
         t' \<leftarrow> pushup x (h2 this);
         Some (h2(this := t')) } }"

declare or_assign_rec.simps [code]

definition op_or_assign :: "nat \<Rightarrow> nat \<Rightarrow> nat \<Rightarrow> store \<Rightarrow> store option" where
  "op_or_assign N this other h = or_assign_rec this other 1 N 1 h"

partial_function (option) xor_assign_rec ::
  "nat \<Rightarrow> nat \<Rightarrow> nat \<Rightarrow> nat \<Rightarrow> nat \<Rightarrow> store \<Rightarrow> store option" where
  "xor_assign_rec this other l r x h =
     do {
       c \<leftarrow> rd (h other) x;
       if \<not> c then Some h
       else if l = r then do {
         a \<leftarrow> rd (h this) x;
         b \<leftarrow> rd (h other) x;
         t' \<leftarrow> wr (h this) x (a \<noteq> b);
         Some (h(this := t')) }
       else do {
         let m = (l + r) div 2;
         h1 \<leftarrow> xor_assign_rec this other l m (ls x) h;
         h2 \<leftarrow> xor_assign_rec this other (m + 1) r (rs x) h1;
         t' \<leftarrow> pushup x (h2 this);
         Some (h2(this := t')) } }"

declare xor_assign_rec.simps [code]

definition op_xor_assign :: "nat \<Rightarrow> nat \<Rightarrow> nat \<Rightarrow> store \<Rightarrow> store option" where
  "op_xor_assign N this other h = xor_assign_rec this other 1 N 1 h"

text \<open>
  The non-member operators copy \<^verbatim>\<open>lhs\<close> into a local \<^verbatim>\<open>s\<close>, combine \<^verbatim>\<open>s\<close> with
  \<^verbatim>\<open>rhs\<close> in place and return \<^verbatim>\<open>s\<close>. The local object is at address 0 and
  \<^verbatim>\<open>rhs\<close> at address 1: they never alias.
\<close>

definition two_objects :: "bool list \<Rightarrow> bool list \<Rightarrow> store" where
  "two_objects s rhs = (\<lambda>a. if a = 0 then s else rhs)"

definition op_and :: "nat \<Rightarrow> bool list \<Rightarrow> bool list \<Rightarrow> bool list option" where
  "op_and N lhs rhs =
     do { h \<leftarrow> op_and_assign N 0 1 (two_objects (segbitset_copy lhs) rhs); Some (h 0) }"

definition op_or :: "nat \<Rightarrow> bool list \<Rightarrow> bool list \<Rightarrow> bool list option" where
  "op_or N lhs rhs =
     do { h \<leftarrow> op_or_assign N 0 1 (two_objects (segbitset_copy lhs) rhs); Some (h 0) }"

definition op_xor :: "nat \<Rightarrow> bool list \<Rightarrow> bool list \<Rightarrow> bool list option" where
  "op_xor N lhs rhs =
     do { h \<leftarrow> op_xor_assign N 0 1 (two_objects (segbitset_copy lhs) rhs); Some (h 0) }"

subsection \<open>Enumeration\<close>

text \<open>
  \<^verbatim>\<open>__next\<close> reports through the reference parameter \<^verbatim>\<open>ans\<close>; the model takes the
  value of \<^verbatim>\<open>ans\<close> at the call and returns its value at the return. In \<^verbatim>\<open>next\<close>, the
  increments \<^verbatim>\<open>++pos\<close> and \<^verbatim>\<open>pos + 1\<close> are taken on natural numbers: they wrap only for
  an argument within two of the largest \<^verbatim>\<open>size_t\<close>, which is no position of a structure.
\<close>

partial_function (option) next_rec ::
  "nat \<Rightarrow> nat \<Rightarrow> nat \<Rightarrow> nat \<Rightarrow> bool list \<Rightarrow> nat \<Rightarrow> nat option" where
  "next_rec pos l r x t ans =
     do {
       c \<leftarrow> rd t x;
       if \<not> c then Some ans
       else if r < pos then Some ans
       else if l = r then Some l
       else do {
         let m = (l + r) div 2;
         let lx = ls x;
         let rx = rs x;
         ans1 \<leftarrow> (if ans = 0
                   then do { cl \<leftarrow> rd t lx; if cl then next_rec pos l m lx t ans else Some ans }
                   else Some ans);
         (if ans1 = 0
          then do { cr \<leftarrow> rd t rx; if cr then next_rec pos (m + 1) r rx t ans1 else Some ans1 }
          else Some ans1) } }"

declare next_rec.simps [code]

definition first_pos :: "nat \<Rightarrow> bool list \<Rightarrow> nat option" where
  "first_pos N t =
     do { ans \<leftarrow> next_rec 1 1 N 1 t 0; Some (if ans \<noteq> 0 then ans - 1 else N) }"

definition next_pos :: "nat \<Rightarrow> bool list \<Rightarrow> nat \<Rightarrow> nat option" where
  "next_pos N t pos =
     do { let pos1 = pos + 1;
          ans \<leftarrow> next_rec (pos1 + 1) 1 N 1 t 0;
          Some (if ans \<noteq> 0 then ans - 1 else N) }"

text \<open>
  The callback is any function of a position; what it does is a change of a state
  \<open>'s\<close> of the caller. The tree is not part of that state.
\<close>

partial_function (option) foreach1_rec ::
  "(nat \<Rightarrow> 's \<Rightarrow> 's) \<Rightarrow> nat \<Rightarrow> nat \<Rightarrow> nat \<Rightarrow> bool list \<Rightarrow> 's \<Rightarrow> 's option" where
  "foreach1_rec cb l r x t s =
     do {
       c \<leftarrow> rd t x;
       if \<not> c then Some s
       else if l = r then Some (cb (l - 1) s)
       else do {
         let m = (l + r) div 2;
         let lx = ls x;
         let rx = rs x;
         cl \<leftarrow> rd t lx;
         s1 \<leftarrow> (if cl then foreach1_rec cb l m lx t s else Some s);
         cr \<leftarrow> rd t rx;
         (if cr then foreach1_rec cb (m + 1) r rx t s1 else Some s1) } }"

declare foreach1_rec.simps [code]

definition foreach1 :: "(nat \<Rightarrow> 's \<Rightarrow> 's) \<Rightarrow> nat \<Rightarrow> bool list \<Rightarrow> 's \<Rightarrow> 's option" where
  "foreach1 cb N t s = foreach1_rec cb 1 N 1 t s"

text \<open>
  The loop of the benchmark,
  \<^verbatim>\<open>for (pos = s.first(); pos != s.size(); pos = s.next(pos))\<close>, collecting the
  positions it visits.
\<close>

partial_function (option) first_next_from :: "nat \<Rightarrow> bool list \<Rightarrow> nat \<Rightarrow> nat list option" where
  "first_next_from N t pos =
     (if pos \<noteq> N
      then do { q \<leftarrow> next_pos N t pos; ps \<leftarrow> first_next_from N t q; Some (pos # ps) }
      else Some [])"

declare first_next_from.simps [code]

definition first_next_loop :: "nat \<Rightarrow> bool list \<Rightarrow> nat list option" where
  "first_next_loop N t = do { p \<leftarrow> first_pos N t; first_next_from N t p }"

subsection \<open>The reference handle\<close>

text \<open>
  A \<^verbatim>\<open>reference\<close> holds the owning structure and a slot index \<open>x\<close>. The non-const
  \<^verbatim>\<open>operator[]\<close> creates it; its operations act on the tree of the owner.
\<close>

definition index_ref :: "nat \<Rightarrow> bool list \<Rightarrow> nat \<Rightarrow> (nat outcome \<times> bool list) option" where
  "index_ref N t pos =
     (if pos \<ge> N then Some (Throws out_of_range, t)
      else do { x \<leftarrow> find_rec (pos + 1) 1 N 1; Some (Returns x, t) })"

definition ref_assign :: "nat \<Rightarrow> bool list \<Rightarrow> bool \<Rightarrow> bool list option" where
  "ref_assign x t value = do { t1 \<leftarrow> wr t x value; pushup_to_root (x div 2) t1 }"

text \<open>
  \<^verbatim>\<open>operator=(const reference&)\<close> reads \<^verbatim>\<open>reference.s.tree[x]\<close>, with the \<open>x\<close> of the
  assigned handle; \<open>u\<close> is the tree of \<^verbatim>\<open>reference.s\<close> at the call (the owner's own
  tree when both handles belong to one structure).
\<close>

definition ref_assign_ref :: "nat \<Rightarrow> bool list \<Rightarrow> bool list \<Rightarrow> bool list option" where
  "ref_assign_ref x t u = do { b \<leftarrow> rd u x; t1 \<leftarrow> wr t x b; pushup_to_root (x div 2) t1 }"

definition ref_not :: "nat \<Rightarrow> bool list \<Rightarrow> (bool \<times> bool list) option" where
  "ref_not x t =
     do { c \<leftarrow> rd t x;
          let b = \<not> c;
          t1 \<leftarrow> wr t x b;
          t2 \<leftarrow> pushup_to_root (x div 2) t1;
          Some (b, t2) }"

definition ref_bool :: "nat \<Rightarrow> bool list \<Rightarrow> bool option" where
  "ref_bool x t = rd t x"

definition ref_flip :: "nat \<Rightarrow> bool list \<Rightarrow> bool list option" where
  "ref_flip x t = do { c \<leftarrow> rd t x; wr t x (\<not> c) }"

section \<open>Specification vocabulary\<close>

text \<open>
  The definitions of this section are not taken from the source: they name what the
  theorems say about it. A node of the tree is a slot index \<open>x\<close> together with the range
  \<open>[l, r]\<close> of 1-based positions it covers; \<open>node N l r x\<close> holds of the root \<open>(1, N, 1)\<close> and
  of everything midpoint splitting reaches from it, and bounds the slot index.
\<close>

definition node :: "nat \<Rightarrow> nat \<Rightarrow> nat \<Rightarrow> nat \<Rightarrow> bool" where
  "node N l r x \<longleftrightarrow> 1 \<le> l \<and> l \<le> r \<and> r \<le> N \<and> 1 \<le> x \<and> x < 4 * N \<and> (r - l) * (x + 1) < 2 * N"

text \<open>\<open>below x y\<close>: slot \<open>y\<close> is \<open>x\<close> or lies under \<open>x\<close> in the implicit binary tree.\<close>

definition below :: "nat \<Rightarrow> nat \<Rightarrow> bool" where
  "below x y \<longleftrightarrow> (\<exists>k. y div 2 ^ k = x)"

text \<open>The leaf values of the subtree at \<open>x\<close>, from position \<open>l\<close> to position \<open>r\<close>.\<close>

function leaves :: "nat \<Rightarrow> nat \<Rightarrow> nat \<Rightarrow> bool list \<Rightarrow> bool list" where
  "leaves l r x t =
     (if l < r
      then leaves l ((l + r) div 2) (ls x) t @ leaves ((l + r) div 2 + 1) r (rs x) t
      else [t ! x])"
  by pat_completeness auto
termination
  by (relation "measure (\<lambda>(l, r, x, t). r - l)") auto

text \<open>The summary invariant: every inner node holds the OR of its two children.\<close>

function summary_inv :: "nat \<Rightarrow> nat \<Rightarrow> nat \<Rightarrow> bool list \<Rightarrow> bool" where
  "summary_inv l r x t =
     (if l < r
      then (t ! x = (t ! ls x \<or> t ! rs x))
           \<and> summary_inv l ((l + r) div 2) (ls x) t
           \<and> summary_inv ((l + r) div 2 + 1) r (rs x) t
      else True)"
  by pat_completeness auto
termination
  by (relation "measure (\<lambda>(l, r, x, t). r - l)") auto

text \<open>\<open>frame x t t'\<close>: \<open>t'\<close> differs from \<open>t\<close> at most on slots under \<open>x\<close>.\<close>

definition frame :: "nat \<Rightarrow> bool list \<Rightarrow> bool list \<Rightarrow> bool" where
  "frame x t t' \<longleftrightarrow> length t' = length t \<and> (\<forall>y. \<not> below x y \<longrightarrow> t' ! y = t ! y)"

declare leaves.simps [simp del] summary_inv.simps [simp del]

definition same_below :: "nat \<Rightarrow> bool list \<Rightarrow> bool list \<Rightarrow> bool" where
  "same_below x t t' \<longleftrightarrow> (\<forall>y. below x y \<longrightarrow> t' ! y = t ! y)"

text \<open>Positions \<open>l\<close> to \<open>r\<close> (1-based, inclusive) of a dense vector.\<close>

definition slice :: "nat \<Rightarrow> nat \<Rightarrow> 'a list \<Rightarrow> 'a list" where
  "slice l r a = take (Suc r - l) (drop (l - 1) a)"

text \<open>\<open>d\<close> rounds of the loop of \<^verbatim>\<open>__pushup_to_root\<close>, started at slot \<open>y\<close>.\<close>

fun pushup_path :: "nat \<Rightarrow> nat \<Rightarrow> bool list \<Rightarrow> bool list option" where
  "pushup_path 0 y t = Some t"
| "pushup_path (Suc d) y t = pushup y t \<bind> pushup_path d (y div 2)"

text \<open>
  What the descent of \<^verbatim>\<open>__find\<close> to position \<open>pos\<close> reaches: a slot \<open>z\<close>, \<open>d\<close> levels
  under \<open>x\<close>, that holds the bit of \<open>pos\<close>; writing it and recomputing the \<open>d\<close> summaries
  above it changes that bit only and keeps the invariant.
\<close>

definition point_post :: "nat \<Rightarrow> nat \<Rightarrow> nat \<Rightarrow> nat \<Rightarrow> nat \<Rightarrow> nat \<Rightarrow> nat \<Rightarrow> bool" where
  "point_post N l r x pos z d \<longleftrightarrow>
     z div 2 ^ d = x \<and>
     (\<forall>t. length t = 1 + 4 * N \<longrightarrow>
        z < length t \<and> t ! z = leaves l r x t ! (pos - l) \<and>
        (\<forall>v. \<exists>t'. pushup_path d (z div 2) (t[z := v]) = Some t' \<and> frame x t t'
               \<and> leaves l r x t' = (leaves l r x t)[pos - l := v]
               \<and> (summary_inv l r x t \<longrightarrow> summary_inv l r x t')))"

text \<open>
  Pre- and postcondition of the recursive pairwise assignments at a node, for the
  operands \<open>this\<close> and \<open>other\<close> of a store \<open>h\<close> (the same address when they alias): both
  trees have the size of capacity \<open>N\<close> and satisfy the invariant below the node; afterwards
  only the tree of \<open>this\<close> has changed, below the node only, it satisfies the invariant, and
  its leaves are the leaves of the two operands at the call combined by \<open>f\<close>.
\<close>

definition pair_pre :: "nat \<Rightarrow> nat \<Rightarrow> nat \<Rightarrow> nat \<Rightarrow> nat \<Rightarrow> nat \<Rightarrow> store \<Rightarrow> bool" where
  "pair_pre N this other l r x h \<longleftrightarrow>
     length (h this) = 1 + 4 * N \<and> length (h other) = 1 + 4 * N
     \<and> summary_inv l r x (h this) \<and> summary_inv l r x (h other)"

definition pair_post ::
  "(bool \<Rightarrow> bool \<Rightarrow> bool) \<Rightarrow> nat \<Rightarrow> nat \<Rightarrow> nat \<Rightarrow> nat \<Rightarrow> nat \<Rightarrow> store \<Rightarrow> store \<Rightarrow> bool" where
  "pair_post f this other l r x h h' \<longleftrightarrow>
     (\<forall>a. a \<noteq> this \<longrightarrow> h' a = h a) \<and> frame x (h this) (h' this)
     \<and> summary_inv l r x (h' this)
     \<and> leaves l r x (h' this) = map2 f (leaves l r x (h this)) (leaves l r x (h other))"

text \<open>
  The positions (1-based, ascending) of the true leaves of the subtree at \<open>x\<close>, and the
  first of a list of positions that is at least \<open>pos\<close>, 0 when there is none.
\<close>

definition truepos :: "nat \<Rightarrow> nat \<Rightarrow> nat \<Rightarrow> bool list \<Rightarrow> nat list" where
  "truepos l r x t = filter (\<lambda>p. leaves l r x t ! (p - l)) [l..<Suc r]"

definition first_ge :: "nat \<Rightarrow> nat list \<Rightarrow> nat" where
  "first_ge pos ps = (case filter (\<lambda>p. pos \<le> p) ps of [] \<Rightarrow> 0 | p # _ \<Rightarrow> p)"

text \<open>The indices (0-based, ascending) of the true bits of a structure.\<close>

definition true_bits :: "nat \<Rightarrow> bool list \<Rightarrow> nat list" where
  "true_bits N t = filter (\<lambda>i. leaves 1 N 1 t ! i) [0..<N]"

section \<open>Lemmas\<close>

subsection \<open>Nodes and slot indices\<close>

text \<open>
  Midpoint splitting keeps \<open>node\<close>, so every slot index the traversals compute lies
  inside the tree; slots under the left child, slots under the right child and the node
  itself are pairwise distinct.
\<close>

lemma node_root: "0 < N \<Longrightarrow> node N 1 N 1"
  by (cases N) (auto simp: node_def)

lemma node_left:
  assumes "node N l r x" "l < r"
  shows "node N l ((l + r) div 2) (ls x)"
proof -
  have a: "(r - l) * (x + 1) < 2 * N" "1 \<le> x" "l < r" using assms by (auto simp: node_def)
  have "x + 1 \<le> (r - l) * (x + 1)" using a(3) by (cases "r - l") auto
  hence b: "x + 1 < 2 * N" using a(1) by linarith
  have "((l + r) div 2 - l) * (2 * x + 1) \<le> ((r - l) div 2) * (2 * (x + 1))"
    by (intro mult_le_mono) auto
  also have "\<dots> = (2 * ((r - l) div 2)) * (x + 1)" by simp
  also have "\<dots> \<le> (r - l) * (x + 1)" by (intro mult_le_mono) auto
  finally have "((l + r) div 2 - l) * (2 * x + 1) < 2 * N" using a(1) by linarith
  thus ?thesis using assms b by (auto simp: node_def ls_def)
qed

lemma node_right:
  assumes "node N l r x" "l < r"
  shows "node N ((l + r) div 2 + 1) r (rs x)"
proof -
  have a: "(r - l) * (x + 1) < 2 * N" "1 \<le> x" "l < r" using assms by (auto simp: node_def)
  have "x + 1 \<le> (r - l) * (x + 1)" using a(3) by (cases "r - l") auto
  hence b: "x + 1 < 2 * N" using a(1) by linarith
  have "(r - ((l + r) div 2 + 1)) * (2 * x + 1 + 1) \<le> ((r - l) div 2) * (2 * (x + 1))"
    by (intro mult_le_mono) auto
  also have "\<dots> = (2 * ((r - l) div 2)) * (x + 1)" by simp
  also have "\<dots> \<le> (r - l) * (x + 1)" by (intro mult_le_mono) auto
  finally have "(r - ((l + r) div 2 + 1)) * (2 * x + 1 + 1) < 2 * N" using a(1) by linarith
  thus ?thesis using assms b by (auto simp: node_def rs_def)
qed

lemma node_induct [consumes 1, case_names leaf inner]:
  assumes "node N l r x"
    and "\<And>l x. node N l l x \<Longrightarrow> P l l x"
    and "\<And>l r x. node N l r x \<Longrightarrow> l < r \<Longrightarrow> P l ((l + r) div 2) (ls x)
            \<Longrightarrow> P ((l + r) div 2 + 1) r (rs x) \<Longrightarrow> P l r x"
  shows "P l r x"
  using assms(1)
proof (induction "r - l" arbitrary: l r x rule: less_induct)
  case less
  show ?case
  proof (cases "l < r")
    case True
    have "P l ((l + r) div 2) (ls x)"
      using True less.prems by (intro less.hyps node_left) auto
    moreover have "P ((l + r) div 2 + 1) r (rs x)"
      using True less.prems by (intro less.hyps node_right) auto
    ultimately show ?thesis using assms(3) less.prems True by blast
  next
    case False
    hence "l = r" using less.prems by (auto simp: node_def)
    thus ?thesis using assms(2) less.prems by blast
  qed
qed

lemma node_bound: "node N l r x \<Longrightarrow> x < 1 + 4 * N"
  by (auto simp: node_def)

lemma node_x: "node N l r x \<Longrightarrow> 1 \<le> x"
  by (auto simp: node_def)

lemma below_refl: "below x x"
  unfolding below_def by (rule exI[of _ 0]) simp

lemma div_pow_Suc: "(y::nat) div 2 ^ Suc k = (y div 2 ^ k) div 2"
  unfolding power_Suc2 div_mult2_eq ..

lemma below_ls: "below (ls x) y \<Longrightarrow> below x y"
  unfolding below_def ls_def
proof (erule exE)
  fix k assume "y div 2 ^ k = 2 * x"
  hence "y div 2 ^ Suc k = x" unfolding div_pow_Suc by simp
  thus "\<exists>k. y div 2 ^ k = x" by blast
qed

lemma below_rs: "below (rs x) y \<Longrightarrow> below x y"
  unfolding below_def rs_def
proof (erule exE)
  fix k assume "y div 2 ^ k = 2 * x + 1"
  hence "y div 2 ^ Suc k = x" unfolding div_pow_Suc by simp
  thus "\<exists>k. y div 2 ^ k = x" by blast
qed

lemma below_le: "below x y \<Longrightarrow> x \<le> y"
  unfolding below_def by (auto intro: div_le_dividend)

lemma div_pow_mono: "k \<le> j \<Longrightarrow> (y::nat) div 2 ^ j = (y div 2 ^ k) div 2 ^ (j - k)"
  by (simp add: div_mult2_eq[symmetric] power_add[symmetric])

lemma below_disjoint:
  assumes "1 \<le> x" "below (ls x) y" shows "\<not> below (rs x) y"
proof
  assume "below (rs x) y"
  then obtain j where j: "y div 2 ^ j = 2 * x + 1" by (auto simp: below_def rs_def)
  from assms obtain k where k: "y div 2 ^ k = 2 * x" by (auto simp: below_def ls_def)
  show False
  proof (cases "k \<le> j")
    case True
    have "2 * x + 1 = (2 * x) div 2 ^ (j - k)" using div_pow_mono[OF True, of y] j k by simp
    also have "\<dots> \<le> 2 * x" by (rule div_le_dividend)
    finally show False by simp
  next
    case False
    hence kj: "j \<le> k" "k - j = Suc (k - j - 1)" by auto
    have "2 * x = (2 * x + 1) div 2 ^ (k - j)" using div_pow_mono[OF kj(1), of y] j k by simp
    also have "\<dots> = ((2 * x + 1) div 2) div 2 ^ (k - j - 1)"
      by (subst kj(2)) (simp add: div_mult2_eq)
    also have "\<dots> \<le> (2 * x + 1) div 2" by (rule div_le_dividend)
    also have "\<dots> = x" by simp
    finally show False using assms(1) by simp
  qed
qed

lemma not_below_self_ls: "1 \<le> x \<Longrightarrow> \<not> below (ls x) x"
  using below_le[of "ls x" x] by (auto simp: ls_def)

lemma not_below_self_rs: "1 \<le> x \<Longrightarrow> \<not> below (rs x) x"
  using below_le[of "rs x" x] by (auto simp: rs_def)

subsection \<open>Frames\<close>

text \<open>
  A traversal of one subtree leaves the leaves and the invariant of a disjoint subtree as
  they were.
\<close>

lemma same_below_ls: "same_below x t t' \<Longrightarrow> same_below (ls x) t t'"
  by (auto simp: same_below_def dest: below_ls)

lemma same_below_rs: "same_below x t t' \<Longrightarrow> same_below (rs x) t t'"
  by (auto simp: same_below_def dest: below_rs)

lemma same_below_nth: "same_below x t t' \<Longrightarrow> t' ! x = t ! x"
  by (auto simp: same_below_def below_refl)

lemma leaves_same: "same_below x t t' \<Longrightarrow> leaves l r x t' = leaves l r x t"
proof (induction l r x t rule: leaves.induct)
  case (1 l r x t)
  show ?case
    using 1 same_below_ls[OF 1(3)] same_below_rs[OF 1(3)] same_below_nth[OF 1(3)]
    by (simp add: leaves.simps[of l r x])
qed

lemma summary_inv_same: "same_below x t t' \<Longrightarrow> summary_inv l r x t' = summary_inv l r x t"
proof (induction l r x t rule: summary_inv.induct)
  case (1 l r x t)
  show ?case
    using 1 same_below_ls[OF 1(3)] same_below_rs[OF 1(3)] same_below_nth[OF 1(3)]
      same_below_nth[OF same_below_ls[OF 1(3)]] same_below_nth[OF same_below_rs[OF 1(3)]]
    by (simp add: summary_inv.simps[of l r x])
qed

lemma length_leaves: "l \<le> r \<Longrightarrow> length (leaves l r x t) = Suc r - l"
proof (induction l r x t rule: leaves.induct)
  case (1 l r x t)
  show ?case
  proof (cases "l < r")
    case True
    thus ?thesis using 1 by (simp add: leaves.simps[of l r x])
  next
    case False
    thus ?thesis using 1(3) by (subst leaves.simps) simp
  qed
qed

lemma frame_refl: "frame x t t"
  by (simp add: frame_def)

lemma frame_trans: "frame x t t1 \<Longrightarrow> frame x t1 t2 \<Longrightarrow> frame x t t2"
  by (simp add: frame_def)

lemma frame_ls: "frame (ls x) t t' \<Longrightarrow> frame x t t'"
  by (auto simp: frame_def dest: below_ls)

lemma frame_rs: "frame (rs x) t t' \<Longrightarrow> frame x t t'"
  by (auto simp: frame_def dest: below_rs)

lemma frame_update: "frame x t (t[x := v])"
proof -
  have "x \<noteq> y" if "\<not> below x y" for y using that below_refl by auto
  thus ?thesis by (simp add: frame_def)
qed

lemma frame_length: "frame x t t' \<Longrightarrow> length t' = length t"
  by (simp add: frame_def)

lemma frame_ls_same_rs: "1 \<le> x \<Longrightarrow> frame (ls x) t t' \<Longrightarrow> same_below (rs x) t t'"
  using below_disjoint[of x] by (auto simp: frame_def same_below_def)

lemma frame_rs_same_ls: "1 \<le> x \<Longrightarrow> frame (rs x) t t' \<Longrightarrow> same_below (ls x) t t'"
  using below_disjoint[of x] by (auto simp: frame_def same_below_def)

lemma update_same_ls:
  assumes "1 \<le> x" shows "same_below (ls x) t (t[x := v])"
proof -
  have "x \<noteq> y" if "below (ls x) y" for y using that not_below_self_ls[OF assms] by auto
  thus ?thesis by (simp add: same_below_def)
qed

lemma update_same_rs:
  assumes "1 \<le> x" shows "same_below (rs x) t (t[x := v])"
proof -
  have "x \<noteq> y" if "below (rs x) y" for y using that not_below_self_rs[OF assms] by auto
  thus ?thesis by (simp add: same_below_def)
qed

lemma rd_Some: "x < length t \<Longrightarrow> rd t x = Some (t ! x)"
  by (simp add: rd_def)

lemma wr_Some: "x < length t \<Longrightarrow> wr t x v = Some (t[x := v])"
  by (simp add: wr_def)

lemma pushup_Some:
  "rs x < length t \<Longrightarrow> pushup x t = Some (t[x := (t ! ls x \<or> t ! rs x)])"
  by (simp add: pushup_def rd_def wr_def ls_def rs_def)

lemma node_children_bound:
  assumes "node N l r x" "l < r"
  shows "ls x < 1 + 4 * N" "rs x < 1 + 4 * N" "x < 1 + 4 * N" "1 \<le> x" "ls x \<noteq> x" "rs x \<noteq> x"
  using node_bound[OF node_left[OF assms]] node_bound[OF node_right[OF assms]]
    node_bound[OF assms(1)] node_x[OF assms(1)]
  by (auto simp: ls_def rs_def)

text \<open>What every recursive mutator does at an inner node, after its two recursive calls.\<close>

lemma inner_step:
  assumes n: "node N l r x" "l < r" and len: "length t = 1 + 4 * N"
    and f1: "frame (ls x) t t1" and f2: "frame (rs x) t1 t2"
  shows "\<exists>t3. pushup x t2 = Some t3 \<and> frame x t t3
           \<and> leaves l r x t3 = leaves l ((l + r) div 2) (ls x) t1 @ leaves ((l + r) div 2 + 1) r (rs x) t2
           \<and> (summary_inv l ((l + r) div 2) (ls x) t1 \<longrightarrow> summary_inv ((l + r) div 2 + 1) r (rs x) t2
                \<longrightarrow> summary_inv l r x t3)"
proof -
  let ?m = "(l + r) div 2"
  let ?t3 = "t2[x := (t2 ! ls x \<or> t2 ! rs x)]"
  note b = node_children_bound[OF n]
  have len2: "length t2 = 1 + 4 * N" using f1 f2 len by (simp add: frame_def)
  have p: "pushup x t2 = Some ?t3" using b len2 by (intro pushup_Some) simp
  have fr: "frame x t ?t3"
    using frame_trans[OF frame_trans[OF frame_ls[OF f1] frame_rs[OF f2]] frame_update] .
  have s32l: "same_below (ls x) t2 ?t3" and s32r: "same_below (rs x) t2 ?t3"
    using update_same_ls update_same_rs b(4) by auto
  have s21: "same_below (ls x) t1 t2" using frame_rs_same_ls[OF b(4) f2] .
  have ll: "leaves l ?m (ls x) ?t3 = leaves l ?m (ls x) t1"
    using leaves_same[OF s32l] leaves_same[OF s21] by simp
  have lr: "leaves (?m + 1) r (rs x) ?t3 = leaves (?m + 1) r (rs x) t2"
    using leaves_same[OF s32r] by simp
  have il: "summary_inv l ?m (ls x) ?t3 = summary_inv l ?m (ls x) t1"
    using summary_inv_same[OF s32l] summary_inv_same[OF s21] by simp
  have ir: "summary_inv (?m + 1) r (rs x) ?t3 = summary_inv (?m + 1) r (rs x) t2"
    using summary_inv_same[OF s32r] by simp
  have x3: "?t3 ! x = (?t3 ! ls x \<or> ?t3 ! rs x)"
    using b len2 by simp
  have "leaves l r x ?t3 = leaves l ?m (ls x) t1 @ leaves (?m + 1) r (rs x) t2"
    using n(2) ll lr by (simp add: leaves.simps[of l r x])
  moreover have "summary_inv l ?m (ls x) t1 \<longrightarrow> summary_inv (?m + 1) r (rs x) t2
                \<longrightarrow> summary_inv l r x ?t3"
    using n(2) il ir x3 by (simp add: summary_inv.simps[of l r x])
  ultimately show ?thesis using p fr by blast
qed

subsection \<open>Construction and export\<close>

lemma slice_one: "1 \<le> l \<Longrightarrow> l \<le> length a \<Longrightarrow> slice l l a = [a ! (l - 1)]"
  by (simp add: slice_def take_Suc_conv_app_nth)

lemma slice_split:
  assumes "1 \<le> l" "l \<le> m" "m \<le> r"
  shows "slice l r a = slice l m a @ slice (m + 1) r a"
proof -
  have e: "Suc r - l = (Suc m - l) + (r - m)" using assms by simp
  have d: "Suc m - l + (l - Suc 0) = m" using assms by simp
  show ?thesis unfolding slice_def e take_add by (simp add: d)
qed

lemma slice_all: "slice 1 (length a) a = a"
  by (simp add: slice_def)

lemma build_correct:
  assumes "node N l r x" and la: "length a = N"
  shows "\<forall>t. length t = 1 + 4 * N \<longrightarrow>
           (\<exists>t'. build a l r x t = Some t' \<and> frame x t t' \<and> summary_inv l r x t'
                 \<and> leaves l r x t' = slice l r a)"
  using assms(1)
proof (induction rule: node_induct)
  case (leaf l x)
  show ?case
  proof (intro allI impI)
    fix t :: "bool list" assume len: "length t = 1 + 4 * N"
    have l: "1 \<le> l" "l \<le> N" and x: "x < length t"
      using leaf len by (auto simp: node_def)
    have "build a l l x t = Some (t[x := a ! (l - 1)])"
      using l x la by (subst build.simps) (simp add: rd_def wr_def)
    moreover have "leaves l l x (t[x := a ! (l - 1)]) = slice l l a"
      using l la x by (simp add: leaves.simps[of l l] slice_one)
    moreover have "summary_inv l l x (t[x := a ! (l - 1)])"
      by (simp add: summary_inv.simps[of l l])
    ultimately show "\<exists>t'. build a l l x t = Some t' \<and> frame x t t' \<and> summary_inv l l x t'
                 \<and> leaves l l x t' = slice l l a"
      using frame_update by blast
  qed
next
  case (inner l r x)
  let ?m = "(l + r) div 2"
  show ?case
  proof (intro allI impI)
    fix t :: "bool list" assume len: "length t = 1 + 4 * N"
    from inner(3) len obtain t1 where t1: "build a l ?m (ls x) t = Some t1"
      "frame (ls x) t t1" "summary_inv l ?m (ls x) t1" "leaves l ?m (ls x) t1 = slice l ?m a"
      by blast
    have len1: "length t1 = 1 + 4 * N" using t1(2) len by (simp add: frame_def)
    from inner(4) len1 obtain t2 where t2: "build a (?m + 1) r (rs x) t1 = Some t2"
      "frame (rs x) t1 t2" "summary_inv (?m + 1) r (rs x) t2"
      "leaves (?m + 1) r (rs x) t2 = slice (?m + 1) r a"
      by blast
    from inner_step[OF inner(1,2) len t1(2) t2(2)] obtain t3 where t3:
      "pushup x t2 = Some t3" "frame x t t3"
      "leaves l r x t3 = leaves l ?m (ls x) t1 @ leaves (?m + 1) r (rs x) t2"
      "summary_inv l ?m (ls x) t1 \<longrightarrow> summary_inv (?m + 1) r (rs x) t2 \<longrightarrow> summary_inv l r x t3"
      by blast
    have "build a l r x t = Some t3"
      using inner(2) t1(1) t2(1) t3(1) by (subst build.simps) simp
    moreover have "leaves l r x t3 = slice l r a"
      using t3(3) t1(4) t2(4) inner(1,2) slice_split[of l ?m r a] by (simp add: node_def)
    ultimately show "\<exists>t'. build a l r x t = Some t' \<and> frame x t t' \<and> summary_inv l r x t'
                 \<and> leaves l r x t' = slice l r a"
      using t3(2,4) t1(3) t2(3) by blast
  qed
qed

lemma take_prefix_drop: "length p = m \<Longrightarrow> take m (p @ ys) = p"
  by simp

lemma drop_prefix_drop: "length p = m \<Longrightarrow> m \<le> r \<Longrightarrow> drop r (p @ drop m a) = drop r a"
  by simp

lemma to_bitset_rec_inner:
  "l \<noteq> r \<Longrightarrow> to_bitset_rec t l r x a =
     to_bitset_rec t l ((l + r) div 2) (ls x) a \<bind> to_bitset_rec t ((l + r) div 2 + 1) r (rs x)"
  by (subst to_bitset_rec.simps) (simp add: Let_def)

lemma to_bitset_rec_correct:
  assumes "node N l r x" and len: "length t = 1 + 4 * N"
  shows "\<forall>a. length a = N \<longrightarrow>
           to_bitset_rec t l r x a = Some (take (l - 1) a @ leaves l r x t @ drop r a)"
  using assms(1)
proof (induction rule: node_induct)
  case (leaf l x)
  show ?case
  proof (intro allI impI)
    fix a :: "bool list" assume la: "length a = N"
    have l: "1 \<le> l" "l \<le> N" and x: "x < length t"
      using leaf len by (auto simp: node_def)
    have "to_bitset_rec t l l x a = Some (a[l - 1 := t ! x])"
      using l x la by (subst to_bitset_rec.simps) (simp add: rd_def wr_def)
    moreover have "a[l - 1 := t ! x] = take (l - 1) a @ [t ! x] @ drop l a"
      using l la by (simp add: upd_conv_take_nth_drop)
    ultimately show "to_bitset_rec t l l x a = Some (take (l - 1) a @ leaves l l x t @ drop l a)"
      by (simp add: leaves.simps[of l l])
  qed
next
  case (inner l r x)
  let ?m = "(l + r) div 2"
  let ?L = "leaves l ?m (ls x) t" and ?R = "leaves (?m + 1) r (rs x) t"
  show ?case
  proof (intro allI impI)
    fix a :: "bool list" assume la: "length a = N"
    have b: "1 \<le> l" "l \<le> ?m" "?m < r" "r \<le> N" using inner(1,2) by (auto simp: node_def)
    let ?a1 = "take (l - 1) a @ ?L @ drop ?m a"
    have lL: "length ?L = Suc ?m - l" using b by (intro length_leaves) simp
    have 1: "to_bitset_rec t l ?m (ls x) a = Some ?a1" by (rule inner(3)[rule_format, OF la])
    have la1: "length ?a1 = N" using lL b la by simp
    have pre: "length (take (l - 1) a @ ?L) = ?m" using lL b la by simp
    have tk: "take ?m ?a1 = take (l - 1) a @ ?L"
      using take_prefix_drop[OF pre, of "drop ?m a"] by simp
    have dr: "drop r ?a1 = drop r a"
      using drop_prefix_drop[OF pre, of r a] b by simp
    have m1: "?m + 1 - 1 = ?m" by simp
    have "to_bitset_rec t (?m + 1) r (rs x) ?a1 = Some (take (?m + 1 - 1) ?a1 @ ?R @ drop r ?a1)"
      by (rule inner(4)[rule_format, OF la1])
    hence 2: "to_bitset_rec t (?m + 1) r (rs x) ?a1 = Some (take (l - 1) a @ (?L @ ?R) @ drop r a)"
      unfolding m1 tk dr by simp
    have ne: "l \<noteq> r" using inner(2) by simp
    have lv: "leaves l r x t = ?L @ ?R" using inner(2) by (simp add: leaves.simps[of l r x])
    show "to_bitset_rec t l r x a = Some (take (l - 1) a @ leaves l r x t @ drop r a)"
      unfolding to_bitset_rec_inner[OF ne] 1 bind.bind_lunit 2 lv ..
  qed
qed

lemma to_bitset_into_leaves:
  assumes "0 < N" "length t = 1 + 4 * N" "length a = N"
  shows "to_bitset_into N t a = Some (leaves 1 N 1 t)"
  using to_bitset_rec_correct[OF node_root[OF assms(1)] assms(2)] assms(3)
  by (simp add: to_bitset_into_def)

lemma to_bitset_leaves:
  assumes "0 < N" "length t = 1 + 4 * N"
  shows "to_bitset N t = Some (leaves 1 N 1 t)"
  using to_bitset_rec_correct[OF node_root[OF assms(1)] assms(2)]
  by (simp add: to_bitset_def)

lemma segbitset_from_correct:
  assumes "0 < N" "length a = N"
  shows "\<exists>t. segbitset_from N a = Some t \<and> length t = 1 + 4 * N \<and> summary_inv 1 N 1 t
           \<and> leaves 1 N 1 t = a"
proof -
  have "length (segbitset_empty N) = 1 + 4 * N" by (simp add: segbitset_empty_def)
  with build_correct[OF node_root[OF assms(1)] assms(2)]
  obtain t where "build a 1 N 1 (segbitset_empty N) = Some t" "frame 1 (segbitset_empty N) t"
    "summary_inv 1 N 1 t" "leaves 1 N 1 t = slice 1 N a" by blast
  thus ?thesis using assms(2) slice_all[of a] by (auto simp: segbitset_from_def frame_def segbitset_empty_def)
qed

subsection \<open>Point updates\<close>

text \<open>
  \<^verbatim>\<open>__find\<close> returns, for every position, a slot of the tree that holds the bit of the
  position; writing the slot and running \<^verbatim>\<open>__pushup_to_root\<close> from its parent changes this
  bit only and keeps the invariant.
\<close>

lemma pushup_to_root_step:
  "y \<noteq> 0 \<Longrightarrow> pushup_to_root y t = pushup y t \<bind> pushup_to_root (y div 2)"
  by (subst pushup_to_root.simps) (simp add: pushup_def)

lemma pushup_to_root_path:
  "y div 2 ^ d = 0 \<Longrightarrow> (\<forall>k<d. y div 2 ^ k \<noteq> 0) \<Longrightarrow> pushup_to_root y t = pushup_path d y t"
proof (induction d arbitrary: y t)
  case 0
  thus ?case by (subst pushup_to_root.simps) simp
next
  case (Suc d)
  have y: "y \<noteq> 0" using Suc.prems(2)[rule_format, of 0] by simp
  have a: "(y div 2) div 2 ^ d = 0" using Suc.prems(1) by (simp add: div_mult2_eq)
  have b: "\<forall>k<d. (y div 2) div 2 ^ k \<noteq> 0"
  proof (intro allI impI)
    fix k assume "k < d"
    hence "y div 2 ^ Suc k \<noteq> 0" using Suc.prems(2) by blast
    thus "(y div 2) div 2 ^ k \<noteq> 0" by (simp add: div_mult2_eq)
  qed
  have "pushup_to_root (y div 2) = pushup_path d (y div 2)"
    using Suc.IH[OF a b] by blast
  thus ?case using pushup_to_root_step[OF y] by simp
qed

lemma pushup_path_snoc:
  "pushup_path (Suc d) y t = pushup_path d y t \<bind> pushup (y div 2 ^ d)"
proof (induction d arbitrary: y t)
  case 0
  show ?case by (cases "pushup y t") simp_all
next
  case (Suc d)
  have e: "(y div 2) div 2 ^ d = y div 2 ^ Suc d" by (simp add: div_mult2_eq)
  have "pushup_path (Suc (Suc d)) y t = pushup y t \<bind> pushup_path (Suc d) (y div 2)" by simp
  also have "\<dots> = pushup y t \<bind> (\<lambda>t'. pushup_path d (y div 2) t' \<bind> pushup (y div 2 ^ Suc d))"
    using Suc.IH[of "y div 2"] unfolding e by presburger
  also have "\<dots> = pushup_path (Suc d) y t \<bind> pushup (y div 2 ^ Suc d)"
    by (cases "pushup y t") simp_all
  finally show ?case .
qed

lemma find_rec_leaf: "find_rec pos l l x = Some x"
  by (subst find_rec.simps) simp

lemma find_rec_left:
  "l < r \<Longrightarrow> pos \<le> (l + r) div 2 \<Longrightarrow> find_rec pos l r x = find_rec pos l ((l + r) div 2) (ls x)"
  by (subst find_rec.simps) (simp add: Let_def)

lemma find_rec_right:
  "l < r \<Longrightarrow> \<not> pos \<le> (l + r) div 2 \<Longrightarrow> find_rec pos l r x = find_rec pos ((l + r) div 2 + 1) r (rs x)"
  by (subst find_rec.simps) (simp add: Let_def)

lemma summary_inv_inner:
  "l < r \<Longrightarrow> summary_inv l r x t \<longleftrightarrow> (t ! x = (t ! ls x \<or> t ! rs x))
      \<and> summary_inv l ((l + r) div 2) (ls x) t \<and> summary_inv ((l + r) div 2 + 1) r (rs x) t"
  by (subst summary_inv.simps) simp

lemma leaves_inner:
  "l < r \<Longrightarrow> leaves l r x t = leaves l ((l + r) div 2) (ls x) t @ leaves ((l + r) div 2 + 1) r (rs x) t"
  by (subst leaves.simps) simp

lemma leaves_leaf: "leaves l l x t = [t ! x]"
  by (subst leaves.simps) simp

lemma point_descent:
  assumes "node N l r x"
  shows "\<forall>pos. l \<le> pos \<and> pos \<le> r \<longrightarrow> (\<exists>z d. find_rec pos l r x = Some z \<and> point_post N l r x pos z d)"
  using assms
proof (induction rule: node_induct)
  case (leaf l x)
  have "point_post N l l x l x 0"
    unfolding point_post_def using node_bound[OF leaf] frame_update
    by (auto simp: leaves_leaf summary_inv.simps[of l l])
  thus ?case using find_rec_leaf by (metis le_antisym)
next
  case (inner l r x)
  let ?m = "(l + r) div 2"
  note b = node_children_bound[OF inner(1,2)]
  have rng: "1 \<le> l" "l \<le> ?m" "?m < r" using inner(1,2) by (auto simp: node_def)
  show ?case
  proof (intro allI impI)
    fix pos assume pos: "l \<le> pos \<and> pos \<le> r"
    show "\<exists>z d. find_rec pos l r x = Some z \<and> point_post N l r x pos z d"
    proof (cases "pos \<le> ?m")
      case True
      from inner(3) pos True obtain z d where zd: "find_rec pos l ?m (ls x) = Some z"
        "point_post N l ?m (ls x) pos z d" by blast
      have f: "find_rec pos l r x = Some z" using find_rec_left[OF inner(2) True] zd(1) by simp
      have zx: "z div 2 ^ Suc d = x"
        using zd(2) unfolding point_post_def div_pow_Suc by (simp add: ls_def)
      have "point_post N l r x pos z (Suc d)"
        unfolding point_post_def
      proof (intro conjI allI impI)
        show "z div 2 ^ Suc d = x" by (rule zx)
      next
        fix t :: "bool list" assume len: "length t = 1 + 4 * N"
        from zd(2) len show "z < length t" by (simp add: point_post_def)
        have lL: "length (leaves l ?m (ls x) t) = Suc ?m - l" using rng by (intro length_leaves)
        from zd(2) len have "t ! z = leaves l ?m (ls x) t ! (pos - l)" by (simp add: point_post_def)
        moreover have "pos - l < length (leaves l ?m (ls x) t)" unfolding lL using True pos by linarith
        ultimately show "t ! z = leaves l r x t ! (pos - l)"
          unfolding leaves_inner[OF inner(2)] by (simp add: nth_append)
      next
        fix t :: "bool list" and v assume len: "length t = 1 + 4 * N"
        have lL: "length (leaves l ?m (ls x) t) = Suc ?m - l" using rng by (intro length_leaves)
        from zd(2) len obtain t1 where t1: "pushup_path d (z div 2) (t[z := v]) = Some t1"
          "frame (ls x) t t1" "leaves l ?m (ls x) t1 = (leaves l ?m (ls x) t)[pos - l := v]"
          "summary_inv l ?m (ls x) t \<longrightarrow> summary_inv l ?m (ls x) t1"
          unfolding point_post_def by blast
        from inner_step[OF inner(1,2) len t1(2) frame_refl] obtain t3 where t3:
          "pushup x t1 = Some t3" "frame x t t3"
          "leaves l r x t3 = leaves l ?m (ls x) t1 @ leaves (?m + 1) r (rs x) t1"
          "summary_inv l ?m (ls x) t1 \<longrightarrow> summary_inv (?m + 1) r (rs x) t1 \<longrightarrow> summary_inv l r x t3"
          by blast
        have sr: "same_below (rs x) t t1" using frame_ls_same_rs[OF b(4) t1(2)] .
        have zz: "(z div 2) div 2 ^ d = x" using zx by (simp add: div_mult2_eq)
        have "pushup_path (Suc d) (z div 2) (t[z := v]) = Some t3"
          unfolding pushup_path_snoc t1(1) zz using t3(1) by simp
        moreover have "leaves l r x t3 = (leaves l r x t)[pos - l := v]"
        proof -
          have pl: "pos - l < length (leaves l ?m (ls x) t)" unfolding lL using True pos by linarith
          have "leaves l r x t3 = (leaves l ?m (ls x) t)[pos - l := v] @ leaves (?m + 1) r (rs x) t"
            using t3(3) t1(3) leaves_same[OF sr] by simp
          also have "\<dots> = (leaves l r x t)[pos - l := v]"
            unfolding leaves_inner[OF inner(2), of x t] using pl by (simp add: list_update_append)
          finally show ?thesis .
        qed
        moreover have "summary_inv l r x t \<longrightarrow> summary_inv l r x t3"
          using t3(4) t1(4) summary_inv_same[OF sr] by (simp add: summary_inv_inner[OF inner(2)])
        ultimately show "\<exists>t'. pushup_path (Suc d) (z div 2) (t[z := v]) = Some t' \<and> frame x t t'
               \<and> leaves l r x t' = (leaves l r x t)[pos - l := v]
               \<and> (summary_inv l r x t \<longrightarrow> summary_inv l r x t')"
          using t3(2) by blast
      qed
      thus ?thesis using f by blast
    next
      case False
      have "?m + 1 \<le> pos \<and> pos \<le> r" using False pos by simp
      with inner(4) obtain z d where zd: "find_rec pos (?m + 1) r (rs x) = Some z"
        "point_post N (?m + 1) r (rs x) pos z d" by blast
      have f: "find_rec pos l r x = Some z" using find_rec_right[OF inner(2) False] zd(1) by simp
      have zx: "z div 2 ^ Suc d = x"
        using zd(2) unfolding point_post_def div_pow_Suc by (simp add: rs_def)
      have ix: "pos - l = length (leaves l ?m (ls x) t) + (pos - (?m + 1))" for t
        using length_leaves[of l ?m "ls x" t] rng False pos by simp
      have "point_post N l r x pos z (Suc d)"
        unfolding point_post_def
      proof (intro conjI allI impI)
        show "z div 2 ^ Suc d = x" by (rule zx)
      next
        fix t :: "bool list" assume len: "length t = 1 + 4 * N"
        from zd(2) len show "z < length t" by (simp add: point_post_def)
        from zd(2) len have "t ! z = leaves (?m + 1) r (rs x) t ! (pos - (?m + 1))"
          by (simp add: point_post_def)
        thus "t ! z = leaves l r x t ! (pos - l)"
          unfolding leaves_inner[OF inner(2)] ix[of t] by simp
      next
        fix t :: "bool list" and v assume len: "length t = 1 + 4 * N"
        from zd(2) len obtain t1 where t1: "pushup_path d (z div 2) (t[z := v]) = Some t1"
          "frame (rs x) t t1"
          "leaves (?m + 1) r (rs x) t1 = (leaves (?m + 1) r (rs x) t)[pos - (?m + 1) := v]"
          "summary_inv (?m + 1) r (rs x) t \<longrightarrow> summary_inv (?m + 1) r (rs x) t1"
          unfolding point_post_def by blast
        from inner_step[OF inner(1,2) len frame_refl t1(2)] obtain t3 where t3:
          "pushup x t1 = Some t3" "frame x t t3"
          "leaves l r x t3 = leaves l ?m (ls x) t @ leaves (?m + 1) r (rs x) t1"
          "summary_inv l ?m (ls x) t \<longrightarrow> summary_inv (?m + 1) r (rs x) t1 \<longrightarrow> summary_inv l r x t3"
          by blast
        have zz: "(z div 2) div 2 ^ d = x" using zx by (simp add: div_mult2_eq)
        have "pushup_path (Suc d) (z div 2) (t[z := v]) = Some t3"
          unfolding pushup_path_snoc t1(1) zz using t3(1) by simp
        moreover have "leaves l r x t3 = (leaves l r x t)[pos - l := v]"
        proof -
          have "leaves l r x t3
                  = leaves l ?m (ls x) t @ (leaves (?m + 1) r (rs x) t)[pos - (?m + 1) := v]"
            using t3(3) t1(3) by simp
          also have "\<dots> = (leaves l r x t)[pos - l := v]"
            unfolding leaves_inner[OF inner(2), of x t] ix[of t] by (simp add: list_update_append)
          finally show ?thesis .
        qed
        moreover have "summary_inv l r x t \<longrightarrow> summary_inv l r x t3"
          using t3(4) t1(4) by (simp add: summary_inv_inner[OF inner(2)])
        ultimately show "\<exists>t'. pushup_path (Suc d) (z div 2) (t[z := v]) = Some t' \<and> frame x t t'
               \<and> leaves l r x t' = (leaves l r x t)[pos - l := v]
               \<and> (summary_inv l r x t \<longrightarrow> summary_inv l r x t')"
          using t3(2) by blast
      qed
      thus ?thesis using f by blast
    qed
  qed
qed

lemma point_update:
  assumes N: "0 < N" and len: "length t = 1 + 4 * N" and pos: "pos < N"
  shows "\<exists>z. find_rec (pos + 1) 1 N 1 = Some z \<and> z < length t \<and> t ! z = leaves 1 N 1 t ! pos
           \<and> (\<forall>v. \<exists>t'. pushup_to_root (z div 2) (t[z := v]) = Some t' \<and> length t' = 1 + 4 * N
                  \<and> leaves 1 N 1 t' = (leaves 1 N 1 t)[pos := v]
                  \<and> (summary_inv 1 N 1 t \<longrightarrow> summary_inv 1 N 1 t'))"
proof -
  from point_descent[OF node_root[OF N]] pos obtain z d where zd:
    "find_rec (pos + 1) 1 N 1 = Some z" "point_post N 1 N 1 (pos + 1) z d"
    by (metis Suc_eq_plus1 Suc_leI le_add2)
  have z1: "z div 2 ^ d = 1" using zd(2) by (simp add: point_post_def)
  have "(z div 2) div 2 ^ d = (z div 2 ^ d) div 2"
    by (simp add: div_mult2_eq[symmetric] mult.commute)
  hence a: "(z div 2) div 2 ^ d = 0" using z1 by simp
  have b: "\<forall>k<d. (z div 2) div 2 ^ k \<noteq> 0"
  proof (intro allI impI)
    fix k assume k: "k < d"
    have "z div 2 ^ d = (z div 2 ^ Suc k) div 2 ^ (d - Suc k)"
      using div_pow_mono[of "Suc k" d z] k by simp
    hence "z div 2 ^ Suc k \<noteq> 0" using z1 by (cases "z div 2 ^ Suc k = 0") simp_all
    thus "(z div 2) div 2 ^ k \<noteq> 0" by (simp add: div_mult2_eq)
  qed
  have p: "pushup_to_root (z div 2) u = pushup_path d (z div 2) u" for u
    using pushup_to_root_path[OF a b] .
  note post = zd(2)[unfolded point_post_def, THEN conjunct2, rule_format, OF len]
  have "\<exists>t'. pushup_to_root (z div 2) (t[z := v]) = Some t' \<and> length t' = 1 + 4 * N
                  \<and> leaves 1 N 1 t' = (leaves 1 N 1 t)[pos := v]
                  \<and> (summary_inv 1 N 1 t \<longrightarrow> summary_inv 1 N 1 t')" for v
  proof -
    from post obtain t' where "pushup_path d (z div 2) (t[z := v]) = Some t'" "frame 1 t t'"
      "leaves 1 N 1 t' = (leaves 1 N 1 t)[pos + 1 - 1 := v]"
      "summary_inv 1 N 1 t \<longrightarrow> summary_inv 1 N 1 t'" by blast
    thus ?thesis unfolding p using len by (auto simp: frame_def)
  qed
  moreover have "z < length t" "t ! z = leaves 1 N 1 t ! pos" using post by simp_all
  ultimately show ?thesis using zd(1) by blast
qed

lemma length_leaves_root: "0 < N \<Longrightarrow> length (leaves 1 N 1 t) = N"
  using length_leaves[of 1 N 1 t] by simp

lemma test_leaves:
  assumes "0 < N" "length t = 1 + 4 * N" "pos < N"
  shows "test N t pos = Some (Returns (leaves 1 N 1 t ! pos), t)"
proof -
  from point_update[OF assms] obtain z where
    "find_rec (pos + 1) 1 N 1 = Some z" "z < length t" "t ! z = leaves 1 N 1 t ! pos" by blast
  thus ?thesis using assms(3) by (simp add: test_def rd_def)
qed

lemma pos_write:
  assumes "0 < N" "length t = 1 + 4 * N" "pos < N"
  shows "\<exists>x. find_rec (pos + 1) 1 N 1 = Some x \<and> rd t x = Some (leaves 1 N 1 t ! pos)
           \<and> (\<forall>v. \<exists>t'. (wr t x v \<bind> pushup_to_root (x div 2)) = Some t'
                  \<and> length t' = 1 + 4 * N
                  \<and> leaves 1 N 1 t' = (leaves 1 N 1 t)[pos := v]
                  \<and> (summary_inv 1 N 1 t \<longrightarrow> summary_inv 1 N 1 t'))"
proof -
  from point_update[OF assms] obtain z where z:
    "find_rec (pos + 1) 1 N 1 = Some z" "z < length t" "t ! z = leaves 1 N 1 t ! pos"
    "\<forall>v. \<exists>t'. pushup_to_root (z div 2) (t[z := v]) = Some t' \<and> length t' = 1 + 4 * N
                  \<and> leaves 1 N 1 t' = (leaves 1 N 1 t)[pos := v]
                  \<and> (summary_inv 1 N 1 t \<longrightarrow> summary_inv 1 N 1 t')" by blast
  have "wr t z v \<bind> pushup_to_root (z div 2) = pushup_to_root (z div 2) (t[z := v])" for v
    using z(2) by (simp add: wr_def)
  thus ?thesis using z by (simp add: rd_def)
qed

subsection \<open>Pairwise assignments\<close>

text \<open>
  Under the invariant, a false summary means that every leaf below is false: this is what
  makes the pruning of the pairwise assignments sound. The lemmas hold for \<open>this = other\<close> too.
\<close>

lemma summary_leaves: "summary_inv l r x t \<Longrightarrow> t ! x = (True \<in> set (leaves l r x t))"
proof (induction l r x t rule: leaves.induct)
  case (1 l r x t)
  show ?case
  proof (cases "l < r")
    case True
    thus ?thesis using 1 by (auto simp: summary_inv_inner leaves_inner)
  next
    case False
    thus ?thesis by (subst leaves.simps) auto
  qed
qed

lemma all_false_and: "True \<notin> set bs \<Longrightarrow> length cs = length bs \<Longrightarrow> map2 (\<and>) bs cs = bs"
  by (induction bs cs rule: list_induct2') auto

lemma all_false_or: "True \<notin> set cs \<Longrightarrow> length cs = length bs \<Longrightarrow> map2 (\<or>) bs cs = bs"
  by (induction bs cs rule: list_induct2') auto

lemma all_false_xor: "True \<notin> set cs \<Longrightarrow> length cs = length bs \<Longrightarrow> map2 (\<noteq>) bs cs = bs"
  by (induction bs cs rule: list_induct2') auto

lemma pair_post_skip:
  assumes "l \<le> r" "map2 f (leaves l r x (h this)) (leaves l r x (h other)) = leaves l r x (h this)"
    "summary_inv l r x (h this)"
  shows "pair_post f this other l r x h h"
  using assms by (simp add: pair_post_def frame_refl)

lemma pair_post_leaf:
  assumes "node N l l x" "length (h this) = 1 + 4 * N"
  shows "pair_post f this other l l x h (h(this := (h this)[x := f (h this ! x) (h other ! x)]))"
  using assms node_bound[OF assms(1)]
  by (simp add: pair_post_def frame_update leaves_leaf summary_inv.simps[of l l])

lemma pair_pre_left:
  "l < r \<Longrightarrow> pair_pre N this other l r x h \<Longrightarrow> pair_pre N this other l ((l + r) div 2) (ls x) h"
  by (simp add: pair_pre_def summary_inv_inner)

lemma pair_post_other:
  assumes "pair_post f this other l r x h h'"
  shows "frame x (h other) (h' other)"
  using assms by (cases "other = this") (auto simp: pair_post_def frame_refl)

lemma pair_pre_right:
  assumes n: "node N l r x" "l < r" and pre: "pair_pre N this other l r x h"
    and p1: "pair_post f this other l ((l + r) div 2) (ls x) h h1"
  shows "pair_pre N this other ((l + r) div 2 + 1) r (rs x) h1"
proof -
  note b = node_children_bound[OF n]
  have ft: "frame (ls x) (h this) (h1 this)" using p1 by (simp add: pair_post_def)
  have fo: "frame (ls x) (h other) (h1 other)" using pair_post_other[OF p1] .
  show ?thesis
    using pre summary_inv_same[OF frame_ls_same_rs[OF b(4) ft]]
      summary_inv_same[OF frame_ls_same_rs[OF b(4) fo]] frame_length[OF ft] frame_length[OF fo]
    by (simp add: pair_pre_def summary_inv_inner[OF n(2)])
qed

lemma pair_inner:
  assumes n: "node N l r x" "l < r" and pre: "pair_pre N this other l r x h"
    and p1: "pair_post f this other l ((l + r) div 2) (ls x) h h1"
    and p2: "pair_post f this other ((l + r) div 2 + 1) r (rs x) h1 h2"
  shows "\<exists>t3. pushup x (h2 this) = Some t3 \<and> pair_post f this other l r x h (h2(this := t3))"
proof -
  let ?m = "(l + r) div 2"
  note b = node_children_bound[OF n]
  have rng: "l \<le> ?m" "?m + 1 \<le> r" using n(2) by auto
  have len: "length (h this) = 1 + 4 * N" using pre by (simp add: pair_pre_def)
  have f1: "frame (ls x) (h this) (h1 this)" using p1 by (simp add: pair_post_def)
  have f2: "frame (rs x) (h1 this) (h2 this)" using p2 by (simp add: pair_post_def)
  have fo: "frame (ls x) (h other) (h1 other)" using pair_post_other[OF p1] .
  from inner_step[OF n len f1 f2] obtain t3 where t3:
    "pushup x (h2 this) = Some t3" "frame x (h this) t3"
    "leaves l r x t3 = leaves l ?m (ls x) (h1 this) @ leaves (?m + 1) r (rs x) (h2 this)"
    "summary_inv l ?m (ls x) (h1 this) \<longrightarrow> summary_inv (?m + 1) r (rs x) (h2 this)
       \<longrightarrow> summary_inv l r x t3"
    by blast
  have L: "leaves l ?m (ls x) (h1 this)
             = map2 f (leaves l ?m (ls x) (h this)) (leaves l ?m (ls x) (h other))"
    using p1 by (simp add: pair_post_def)
  have "leaves (?m + 1) r (rs x) (h2 this)
             = map2 f (leaves (?m + 1) r (rs x) (h1 this)) (leaves (?m + 1) r (rs x) (h1 other))"
    using p2 by (simp add: pair_post_def)
  hence R: "leaves (?m + 1) r (rs x) (h2 this)
             = map2 f (leaves (?m + 1) r (rs x) (h this)) (leaves (?m + 1) r (rs x) (h other))"
    using leaves_same[OF frame_ls_same_rs[OF b(4) f1]] leaves_same[OF frame_ls_same_rs[OF b(4) fo]]
    by simp
  have ll: "length (leaves l ?m (ls x) (h this)) = length (leaves l ?m (ls x) (h other))"
    using length_leaves[OF rng(1)] by simp
  have "leaves l r x t3 = map2 f (leaves l r x (h this)) (leaves l r x (h other))"
    unfolding t3(3) L R leaves_inner[OF n(2), of x "h this"] leaves_inner[OF n(2), of x "h other"]
    using ll by simp
  moreover have "summary_inv l r x t3" using t3(4) p1 p2 by (simp add: pair_post_def)
  moreover have "\<forall>a. a \<noteq> this \<longrightarrow> (h2(this := t3)) a = h a"
    using p1 p2 by (simp add: pair_post_def)
  ultimately have "pair_post f this other l r x h (h2(this := t3))"
    using t3(2) by (simp add: pair_post_def)
  thus ?thesis using t3(1) by blast
qed

lemma and_assign_rec_skip:
  "rd (h this) x = Some False \<Longrightarrow> and_assign_rec this other l r x h = Some h"
  by (subst and_assign_rec.simps) simp

lemma and_assign_rec_leaf:
  "rd (h this) x = Some True \<Longrightarrow> x < length (h this) \<Longrightarrow> x < length (h other) \<Longrightarrow>
   and_assign_rec this other l l x h
     = Some (h(this := (h this)[x := (h this ! x \<and> h other ! x)]))"
  by (subst and_assign_rec.simps) (simp add: rd_def wr_def)

lemma and_assign_rec_inner:
  "rd (h this) x = Some True \<Longrightarrow> l \<noteq> r \<Longrightarrow>
   and_assign_rec this other l r x h
     = and_assign_rec this other l ((l + r) div 2) (ls x) h
         \<bind> (\<lambda>h1. and_assign_rec this other ((l + r) div 2 + 1) r (rs x) h1
         \<bind> (\<lambda>h2. pushup x (h2 this) \<bind> (\<lambda>t'. Some (h2(this := t')))))"
  by (subst and_assign_rec.simps) (simp add: Let_def)

lemma and_assign_rec_correct:
  assumes "node N l r x"
  shows "\<forall>h. pair_pre N this other l r x h \<longrightarrow>
           (\<exists>h'. and_assign_rec this other l r x h = Some h' \<and> pair_post (\<and>) this other l r x h h')"
  using assms
proof (induction rule: node_induct)
  case (leaf l x)
  show ?case
  proof (intro allI impI)
    fix h assume pre: "pair_pre N this other l l x h"
    have len: "length (h this) = 1 + 4 * N" "length (h other) = 1 + 4 * N"
      using pre by (simp_all add: pair_pre_def)
    have x: "x < length (h this)" "x < length (h other)" using node_bound[OF leaf] len by simp_all
    show "\<exists>h'. and_assign_rec this other l l x h = Some h' \<and> pair_post (\<and>) this other l l x h h'"
    proof (cases "h this ! x")
      case True
      hence "rd (h this) x = Some True" using x by (simp add: rd_def)
      hence "and_assign_rec this other l l x h
               = Some (h(this := (h this)[x := (h this ! x \<and> h other ! x)]))"
        using x by (simp add: and_assign_rec_leaf)
      thus ?thesis using pair_post_leaf[of N l x h this "(\<and>)" other, OF leaf len(1)] by simp
    next
      case False
      hence "rd (h this) x = Some False" using x by (simp add: rd_def)
      hence "and_assign_rec this other l l x h = Some h" by (simp add: and_assign_rec_skip)
      moreover have "pair_post (\<and>) this other l l x h h"
        using False by (intro pair_post_skip) (simp_all add: leaves_leaf summary_inv.simps[of l l])
      ultimately show ?thesis by blast
    qed
  qed
next
  case (inner l r x)
  let ?m = "(l + r) div 2"
  show ?case
  proof (intro allI impI)
    fix h assume pre: "pair_pre N this other l r x h"
    have len: "length (h this) = 1 + 4 * N" "length (h other) = 1 + 4 * N"
      and inv: "summary_inv l r x (h this)"
      using pre by (simp_all add: pair_pre_def)
    have x: "x < length (h this)" using node_bound[OF inner(1)] len by simp
    have lr: "l \<le> r" "l \<noteq> r" using inner(2) by simp_all
    show "\<exists>h'. and_assign_rec this other l r x h = Some h' \<and> pair_post (\<and>) this other l r x h h'"
    proof (cases "h this ! x")
      case False
      hence "rd (h this) x = Some False" using x by (simp add: rd_def)
      hence "and_assign_rec this other l r x h = Some h" by (simp add: and_assign_rec_skip)
      moreover have "True \<notin> set (leaves l r x (h this))" using summary_leaves[OF inv] False by simp
      hence "pair_post (\<and>) this other l r x h h"
        using inv length_leaves[OF lr(1)] by (intro pair_post_skip lr all_false_and) simp_all
      ultimately show ?thesis by blast
    next
      case True
      hence c: "rd (h this) x = Some True" using x by (simp add: rd_def)
      from inner(3) pair_pre_left[OF inner(2) pre] obtain h1 where h1:
        "and_assign_rec this other l ?m (ls x) h = Some h1"
        "pair_post (\<and>) this other l ?m (ls x) h h1" by blast
      from inner(4) pair_pre_right[OF inner(1,2) pre h1(2)] obtain h2 where h2:
        "and_assign_rec this other (?m + 1) r (rs x) h1 = Some h2"
        "pair_post (\<and>) this other (?m + 1) r (rs x) h1 h2" by blast
      from pair_inner[OF inner(1,2) pre h1(2) h2(2)] obtain t3 where t3:
        "pushup x (h2 this) = Some t3" "pair_post (\<and>) this other l r x h (h2(this := t3))" by blast
      have "and_assign_rec this other l r x h = Some (h2(this := t3))"
        using c lr(2) h1(1) h2(1) t3(1) by (simp add: and_assign_rec_inner)
      thus ?thesis using t3(2) by blast
    qed
  qed
qed

lemma or_assign_rec_skip:
  "rd (h other) x = Some False \<Longrightarrow> or_assign_rec this other l r x h = Some h"
  by (subst or_assign_rec.simps) simp

lemma or_assign_rec_leaf:
  "rd (h other) x = Some True \<Longrightarrow> x < length (h this) \<Longrightarrow> x < length (h other) \<Longrightarrow>
   or_assign_rec this other l l x h
     = Some (h(this := (h this)[x := (h this ! x \<or> h other ! x)]))"
  by (subst or_assign_rec.simps) (simp add: rd_def wr_def)

lemma or_assign_rec_inner:
  "rd (h other) x = Some True \<Longrightarrow> l \<noteq> r \<Longrightarrow>
   or_assign_rec this other l r x h
     = or_assign_rec this other l ((l + r) div 2) (ls x) h
         \<bind> (\<lambda>h1. or_assign_rec this other ((l + r) div 2 + 1) r (rs x) h1
         \<bind> (\<lambda>h2. pushup x (h2 this) \<bind> (\<lambda>t'. Some (h2(this := t')))))"
  by (subst or_assign_rec.simps) (simp add: Let_def)

lemma or_assign_rec_correct:
  assumes "node N l r x"
  shows "\<forall>h. pair_pre N this other l r x h \<longrightarrow>
           (\<exists>h'. or_assign_rec this other l r x h = Some h' \<and> pair_post (\<or>) this other l r x h h')"
  using assms
proof (induction rule: node_induct)
  case (leaf l x)
  show ?case
  proof (intro allI impI)
    fix h assume pre: "pair_pre N this other l l x h"
    have len: "length (h this) = 1 + 4 * N" "length (h other) = 1 + 4 * N"
      using pre by (simp_all add: pair_pre_def)
    have x: "x < length (h this)" "x < length (h other)" using node_bound[OF leaf] len by simp_all
    show "\<exists>h'. or_assign_rec this other l l x h = Some h' \<and> pair_post (\<or>) this other l l x h h'"
    proof (cases "h other ! x")
      case True
      hence "rd (h other) x = Some True" using x by (simp add: rd_def)
      hence "or_assign_rec this other l l x h
               = Some (h(this := (h this)[x := (h this ! x \<or> h other ! x)]))"
        using x by (simp add: or_assign_rec_leaf)
      thus ?thesis using pair_post_leaf[of N l x h this "(\<or>)" other, OF leaf len(1)] by simp
    next
      case False
      hence "rd (h other) x = Some False" using x by (simp add: rd_def)
      hence "or_assign_rec this other l l x h = Some h" by (simp add: or_assign_rec_skip)
      moreover have "pair_post (\<or>) this other l l x h h"
        using False by (intro pair_post_skip) (simp_all add: leaves_leaf summary_inv.simps[of l l])
      ultimately show ?thesis by blast
    qed
  qed
next
  case (inner l r x)
  let ?m = "(l + r) div 2"
  show ?case
  proof (intro allI impI)
    fix h assume pre: "pair_pre N this other l r x h"
    have len: "length (h this) = 1 + 4 * N" "length (h other) = 1 + 4 * N"
      and inv: "summary_inv l r x (h this)" and invo: "summary_inv l r x (h other)"
      using pre by (simp_all add: pair_pre_def)
    have x: "x < length (h other)" using node_bound[OF inner(1)] len by simp
    have lr: "l \<le> r" "l \<noteq> r" using inner(2) by simp_all
    show "\<exists>h'. or_assign_rec this other l r x h = Some h' \<and> pair_post (\<or>) this other l r x h h'"
    proof (cases "h other ! x")
      case False
      hence "rd (h other) x = Some False" using x by (simp add: rd_def)
      hence "or_assign_rec this other l r x h = Some h" by (simp add: or_assign_rec_skip)
      moreover have "True \<notin> set (leaves l r x (h other))" using summary_leaves[OF invo] False by simp
      hence "pair_post (\<or>) this other l r x h h"
        using inv length_leaves[OF lr(1)] by (intro pair_post_skip lr all_false_or) simp_all
      ultimately show ?thesis by blast
    next
      case True
      hence c: "rd (h other) x = Some True" using x by (simp add: rd_def)
      from inner(3) pair_pre_left[OF inner(2) pre] obtain h1 where h1:
        "or_assign_rec this other l ?m (ls x) h = Some h1"
        "pair_post (\<or>) this other l ?m (ls x) h h1" by blast
      from inner(4) pair_pre_right[OF inner(1,2) pre h1(2)] obtain h2 where h2:
        "or_assign_rec this other (?m + 1) r (rs x) h1 = Some h2"
        "pair_post (\<or>) this other (?m + 1) r (rs x) h1 h2" by blast
      from pair_inner[OF inner(1,2) pre h1(2) h2(2)] obtain t3 where t3:
        "pushup x (h2 this) = Some t3" "pair_post (\<or>) this other l r x h (h2(this := t3))" by blast
      have "or_assign_rec this other l r x h = Some (h2(this := t3))"
        using c lr(2) h1(1) h2(1) t3(1) by (simp add: or_assign_rec_inner)
      thus ?thesis using t3(2) by blast
    qed
  qed
qed

lemma xor_assign_rec_skip:
  "rd (h other) x = Some False \<Longrightarrow> xor_assign_rec this other l r x h = Some h"
  by (subst xor_assign_rec.simps) simp

lemma xor_assign_rec_leaf:
  "rd (h other) x = Some True \<Longrightarrow> x < length (h this) \<Longrightarrow> x < length (h other) \<Longrightarrow>
   xor_assign_rec this other l l x h
     = Some (h(this := (h this)[x := (h this ! x \<noteq> h other ! x)]))"
  by (subst xor_assign_rec.simps) (simp add: rd_def wr_def)

lemma xor_assign_rec_inner:
  "rd (h other) x = Some True \<Longrightarrow> l \<noteq> r \<Longrightarrow>
   xor_assign_rec this other l r x h
     = xor_assign_rec this other l ((l + r) div 2) (ls x) h
         \<bind> (\<lambda>h1. xor_assign_rec this other ((l + r) div 2 + 1) r (rs x) h1
         \<bind> (\<lambda>h2. pushup x (h2 this) \<bind> (\<lambda>t'. Some (h2(this := t')))))"
  by (subst xor_assign_rec.simps) (simp add: Let_def)

lemma xor_assign_rec_correct:
  assumes "node N l r x"
  shows "\<forall>h. pair_pre N this other l r x h \<longrightarrow>
           (\<exists>h'. xor_assign_rec this other l r x h = Some h' \<and> pair_post (\<noteq>) this other l r x h h')"
  using assms
proof (induction rule: node_induct)
  case (leaf l x)
  show ?case
  proof (intro allI impI)
    fix h assume pre: "pair_pre N this other l l x h"
    have len: "length (h this) = 1 + 4 * N" "length (h other) = 1 + 4 * N"
      using pre by (simp_all add: pair_pre_def)
    have x: "x < length (h this)" "x < length (h other)" using node_bound[OF leaf] len by simp_all
    show "\<exists>h'. xor_assign_rec this other l l x h = Some h' \<and> pair_post (\<noteq>) this other l l x h h'"
    proof (cases "h other ! x")
      case True
      hence "rd (h other) x = Some True" using x by (simp add: rd_def)
      hence "xor_assign_rec this other l l x h
               = Some (h(this := (h this)[x := (h this ! x \<noteq> h other ! x)]))"
        using x by (simp add: xor_assign_rec_leaf)
      thus ?thesis using pair_post_leaf[of N l x h this "(\<noteq>)" other, OF leaf len(1)] by simp
    next
      case False
      hence "rd (h other) x = Some False" using x by (simp add: rd_def)
      hence "xor_assign_rec this other l l x h = Some h" by (simp add: xor_assign_rec_skip)
      moreover have "pair_post (\<noteq>) this other l l x h h"
        using False by (intro pair_post_skip) (simp_all add: leaves_leaf summary_inv.simps[of l l])
      ultimately show ?thesis by blast
    qed
  qed
next
  case (inner l r x)
  let ?m = "(l + r) div 2"
  show ?case
  proof (intro allI impI)
    fix h assume pre: "pair_pre N this other l r x h"
    have len: "length (h this) = 1 + 4 * N" "length (h other) = 1 + 4 * N"
      and inv: "summary_inv l r x (h this)" and invo: "summary_inv l r x (h other)"
      using pre by (simp_all add: pair_pre_def)
    have x: "x < length (h other)" using node_bound[OF inner(1)] len by simp
    have lr: "l \<le> r" "l \<noteq> r" using inner(2) by simp_all
    show "\<exists>h'. xor_assign_rec this other l r x h = Some h' \<and> pair_post (\<noteq>) this other l r x h h'"
    proof (cases "h other ! x")
      case False
      hence "rd (h other) x = Some False" using x by (simp add: rd_def)
      hence "xor_assign_rec this other l r x h = Some h" by (simp add: xor_assign_rec_skip)
      moreover have "True \<notin> set (leaves l r x (h other))" using summary_leaves[OF invo] False by simp
      hence "pair_post (\<noteq>) this other l r x h h"
        using inv length_leaves[OF lr(1)] by (intro pair_post_skip lr all_false_xor) simp_all
      ultimately show ?thesis by blast
    next
      case True
      hence c: "rd (h other) x = Some True" using x by (simp add: rd_def)
      from inner(3) pair_pre_left[OF inner(2) pre] obtain h1 where h1:
        "xor_assign_rec this other l ?m (ls x) h = Some h1"
        "pair_post (\<noteq>) this other l ?m (ls x) h h1" by blast
      from inner(4) pair_pre_right[OF inner(1,2) pre h1(2)] obtain h2 where h2:
        "xor_assign_rec this other (?m + 1) r (rs x) h1 = Some h2"
        "pair_post (\<noteq>) this other (?m + 1) r (rs x) h1 h2" by blast
      from pair_inner[OF inner(1,2) pre h1(2) h2(2)] obtain t3 where t3:
        "pushup x (h2 this) = Some t3" "pair_post (\<noteq>) this other l r x h (h2(this := t3))" by blast
      have "xor_assign_rec this other l r x h = Some (h2(this := t3))"
        using c lr(2) h1(1) h2(1) t3(1) by (simp add: xor_assign_rec_inner)
      thus ?thesis using t3(2) by blast
    qed
  qed
qed

subsection \<open>Whole-structure flip and reset\<close>

lemma flip_rec_leaf: "x < length t \<Longrightarrow> flip_rec l l x t = Some (t[x := \<not> t ! x])"
  by (subst flip_rec.simps) (simp add: rd_def wr_def)

lemma flip_rec_inner:
  "l \<noteq> r \<Longrightarrow> flip_rec l r x t
     = flip_rec l ((l + r) div 2) (ls x) t \<bind> (\<lambda>t1. flip_rec ((l + r) div 2 + 1) r (rs x) t1 \<bind> pushup x)"
  by (subst flip_rec.simps) (simp add: Let_def)

lemma flip_rec_correct:
  assumes "node N l r x"
  shows "\<forall>t. length t = 1 + 4 * N \<longrightarrow>
           (\<exists>t'. flip_rec l r x t = Some t' \<and> frame x t t' \<and> summary_inv l r x t'
                 \<and> leaves l r x t' = map Not (leaves l r x t))"
  using assms
proof (induction rule: node_induct)
  case (leaf l x)
  show ?case
  proof (intro allI impI)
    fix t :: "bool list" assume len: "length t = 1 + 4 * N"
    have x: "x < length t" using node_bound[OF leaf] len by simp
    show "\<exists>t'. flip_rec l l x t = Some t' \<and> frame x t t' \<and> summary_inv l l x t'
                 \<and> leaves l l x t' = map Not (leaves l l x t)"
      using flip_rec_leaf[OF x] x frame_update
      by (simp add: leaves_leaf summary_inv.simps[of l l])
  qed
next
  case (inner l r x)
  let ?m = "(l + r) div 2"
  note b = node_children_bound[OF inner(1,2)]
  show ?case
  proof (intro allI impI)
    fix t :: "bool list" assume len: "length t = 1 + 4 * N"
    from inner(3) len obtain t1 where t1: "flip_rec l ?m (ls x) t = Some t1"
      "frame (ls x) t t1" "summary_inv l ?m (ls x) t1"
      "leaves l ?m (ls x) t1 = map Not (leaves l ?m (ls x) t)"
      by blast
    have len1: "length t1 = 1 + 4 * N" using t1(2) len by (simp add: frame_def)
    from inner(4) len1 obtain t2 where t2: "flip_rec (?m + 1) r (rs x) t1 = Some t2"
      "frame (rs x) t1 t2" "summary_inv (?m + 1) r (rs x) t2"
      "leaves (?m + 1) r (rs x) t2 = map Not (leaves (?m + 1) r (rs x) t1)"
      by blast
    from inner_step[OF inner(1,2) len t1(2) t2(2)] obtain t3 where t3:
      "pushup x t2 = Some t3" "frame x t t3"
      "leaves l r x t3 = leaves l ?m (ls x) t1 @ leaves (?m + 1) r (rs x) t2"
      "summary_inv l ?m (ls x) t1 \<longrightarrow> summary_inv (?m + 1) r (rs x) t2 \<longrightarrow> summary_inv l r x t3"
      by blast
    have ne: "l \<noteq> r" using inner(2) by simp
    have "flip_rec l r x t = Some t3"
      using t1(1) t2(1) t3(1) by (simp add: flip_rec_inner[OF ne])
    moreover have "leaves l r x t3 = map Not (leaves l r x t)"
      unfolding t3(3) t1(4) t2(4) leaves_same[OF frame_ls_same_rs[OF b(4) t1(2)]]
        leaves_inner[OF inner(2), of x t] by simp
    ultimately show "\<exists>t'. flip_rec l r x t = Some t' \<and> frame x t t' \<and> summary_inv l r x t'
                 \<and> leaves l r x t' = map Not (leaves l r x t)"
      using t3(2,4) t1(3) t2(3) by blast
  qed
qed

lemma reset_rec_skip: "rd t x = Some False \<Longrightarrow> reset_rec l r x t = Some t"
  by (subst reset_rec.simps) simp

lemma reset_rec_leaf: "rd t x = Some True \<Longrightarrow> reset_rec l l x t = wr t x False"
  by (subst reset_rec.simps) simp

lemma reset_rec_inner:
  "rd t x = Some True \<Longrightarrow> l \<noteq> r \<Longrightarrow> reset_rec l r x t
     = reset_rec l ((l + r) div 2) (ls x) t \<bind> (\<lambda>t1. reset_rec ((l + r) div 2 + 1) r (rs x) t1 \<bind> pushup x)"
  by (subst reset_rec.simps) (simp add: Let_def)

lemma reset_rec_correct:
  assumes "node N l r x"
  shows "\<forall>t. length t = 1 + 4 * N \<and> summary_inv l r x t \<longrightarrow>
           (\<exists>t'. reset_rec l r x t = Some t' \<and> frame x t t' \<and> summary_inv l r x t'
                 \<and> leaves l r x t' = replicate (Suc r - l) False)"
  using assms
proof (induction rule: node_induct)
  case (leaf l x)
  show ?case
  proof (intro allI impI)
    fix t :: "bool list" assume "length t = 1 + 4 * N \<and> summary_inv l l x t"
    hence x: "x < length t" using node_bound[OF leaf] by simp
    show "\<exists>t'. reset_rec l l x t = Some t' \<and> frame x t t' \<and> summary_inv l l x t'
                 \<and> leaves l l x t' = replicate (Suc l - l) False"
    proof (cases "t ! x")
      case True
      hence "reset_rec l l x t = Some (t[x := False])"
        using x by (simp add: reset_rec_leaf rd_def wr_def)
      thus ?thesis using x frame_update by (simp add: leaves_leaf summary_inv.simps[of l l])
    next
      case False
      hence "reset_rec l l x t = Some t" using x by (simp add: reset_rec_skip rd_def)
      thus ?thesis using False frame_refl by (simp add: leaves_leaf summary_inv.simps[of l l])
    qed
  qed
next
  case (inner l r x)
  let ?m = "(l + r) div 2"
  note b = node_children_bound[OF inner(1,2)]
  have rng: "l \<le> ?m" "?m < r" "l \<le> r" using inner(2) by auto
  show ?case
  proof (intro allI impI)
    fix t :: "bool list" assume a: "length t = 1 + 4 * N \<and> summary_inv l r x t"
    hence len: "length t = 1 + 4 * N" and inv: "summary_inv l r x t" by simp_all
    have x: "x < length t" using node_bound[OF inner(1)] len by simp
    show "\<exists>t'. reset_rec l r x t = Some t' \<and> frame x t t' \<and> summary_inv l r x t'
                 \<and> leaves l r x t' = replicate (Suc r - l) False"
    proof (cases "t ! x")
      case False
      hence "reset_rec l r x t = Some t" using x by (simp add: reset_rec_skip rd_def)
      moreover have "True \<notin> set (leaves l r x t)" using summary_leaves[OF inv] False by simp
      hence "leaves l r x t = replicate (Suc r - l) False"
        using length_leaves[OF rng(3), of x t] by (metis (full_types) replicate_length_same)
      ultimately show ?thesis using inv frame_refl by simp
    next
      case True
      hence c: "rd t x = Some True" using x by (simp add: rd_def)
      have il: "summary_inv l ?m (ls x) t" and ir: "summary_inv (?m + 1) r (rs x) t"
        using inv by (simp_all add: summary_inv_inner[OF inner(2)])
      from inner(3) len il obtain t1 where t1: "reset_rec l ?m (ls x) t = Some t1"
        "frame (ls x) t t1" "summary_inv l ?m (ls x) t1"
        "leaves l ?m (ls x) t1 = replicate (Suc ?m - l) False"
        by blast
      have len1: "length t1 = 1 + 4 * N" using t1(2) len by (simp add: frame_def)
      have ir1: "summary_inv (?m + 1) r (rs x) t1"
        using ir summary_inv_same[OF frame_ls_same_rs[OF b(4) t1(2)]] by simp
      from inner(4) len1 ir1 obtain t2 where t2: "reset_rec (?m + 1) r (rs x) t1 = Some t2"
        "frame (rs x) t1 t2" "summary_inv (?m + 1) r (rs x) t2"
        "leaves (?m + 1) r (rs x) t2 = replicate (Suc r - (?m + 1)) False"
        by blast
      from inner_step[OF inner(1,2) len t1(2) t2(2)] obtain t3 where t3:
        "pushup x t2 = Some t3" "frame x t t3"
        "leaves l r x t3 = leaves l ?m (ls x) t1 @ leaves (?m + 1) r (rs x) t2"
        "summary_inv l ?m (ls x) t1 \<longrightarrow> summary_inv (?m + 1) r (rs x) t2 \<longrightarrow> summary_inv l r x t3"
        by blast
      have ne: "l \<noteq> r" using inner(2) by simp
      have "reset_rec l r x t = Some t3"
        using t1(1) t2(1) t3(1) by (simp add: reset_rec_inner[OF c ne])
      moreover have "Suc ?m - l + (Suc r - (?m + 1)) = Suc r - l" using rng by simp
      hence "leaves l r x t3 = replicate (Suc r - l) False"
        unfolding t3(3) t1(4) t2(4) replicate_add[symmetric] by simp
      ultimately show ?thesis using t3(2,4) t1(3) t2(3) by blast
    qed
  qed
qed

subsection \<open>The operators\<close>

lemma pair_top:
  assumes N: "0 < N" and pre: "pair_pre N this other 1 N 1 h"
  shows "(\<exists>h'. op_and_assign N this other h = Some h' \<and> pair_post (\<and>) this other 1 N 1 h h')
       \<and> (\<exists>h'. op_or_assign N this other h = Some h' \<and> pair_post (\<or>) this other 1 N 1 h h')
       \<and> (\<exists>h'. op_xor_assign N this other h = Some h' \<and> pair_post (\<noteq>) this other 1 N 1 h h')"
  using and_assign_rec_correct[OF node_root[OF N], of this other]
    or_assign_rec_correct[OF node_root[OF N], of this other]
    xor_assign_rec_correct[OF node_root[OF N], of this other] pre
  by (simp add: op_and_assign_def op_or_assign_def op_xor_assign_def)

lemma pair_post_export:
  assumes N: "0 < N" and pre: "pair_pre N this other 1 N 1 h"
    and post: "pair_post f this other 1 N 1 h h'"
  shows "to_bitset N (h' this) = Some (map2 f (leaves 1 N 1 (h this)) (leaves 1 N 1 (h other)))"
    and "length (h' this) = 1 + 4 * N" and "summary_inv 1 N 1 (h' this)"
proof -
  show len: "length (h' this) = 1 + 4 * N"
    using pre post by (simp add: pair_pre_def pair_post_def frame_def)
  show "to_bitset N (h' this) = Some (map2 f (leaves 1 N 1 (h this)) (leaves 1 N 1 (h other)))"
    using to_bitset_leaves[OF N len] post by (simp add: pair_post_def)
  show "summary_inv 1 N 1 (h' this)" using post by (simp add: pair_post_def)
qed

lemma pair_pre_two_objects:
  assumes "length A = 1 + 4 * N" "length B = 1 + 4 * N" "summary_inv 1 N 1 A" "summary_inv 1 N 1 B"
  shows "pair_pre N 0 1 1 N 1 (two_objects (segbitset_copy A) B)"
  using assms by (simp add: pair_pre_def two_objects_def segbitset_copy_def)

lemma binary_operators:
  assumes N: "0 < N" and wf: "length A = 1 + 4 * N" "length B = 1 + 4 * N"
    and inv: "summary_inv 1 N 1 A" "summary_inv 1 N 1 B"
  shows "op_and N A B \<bind> to_bitset N = Some (map2 (\<and>) (leaves 1 N 1 A) (leaves 1 N 1 B))"
    and "op_or N A B \<bind> to_bitset N = Some (map2 (\<or>) (leaves 1 N 1 A) (leaves 1 N 1 B))"
    and "op_xor N A B \<bind> to_bitset N = Some (map2 (\<noteq>) (leaves 1 N 1 A) (leaves 1 N 1 B))"
proof -
  let ?h = "two_objects (segbitset_copy A) B"
  note pre = pair_pre_two_objects[OF wf inv]
  have l: "leaves 1 N 1 (?h 0) = leaves 1 N 1 A" "leaves 1 N 1 (?h 1) = leaves 1 N 1 B"
    by (simp_all add: two_objects_def segbitset_copy_def)
  from pair_top[OF N pre] obtain h1 h2 h3 where
    1: "op_and_assign N 0 1 ?h = Some h1" "pair_post (\<and>) 0 1 1 N 1 ?h h1" and
    2: "op_or_assign N 0 1 ?h = Some h2" "pair_post (\<or>) 0 1 1 N 1 ?h h2" and
    3: "op_xor_assign N 0 1 ?h = Some h3" "pair_post (\<noteq>) 0 1 1 N 1 ?h h3" by blast
  show "op_and N A B \<bind> to_bitset N = Some (map2 (\<and>) (leaves 1 N 1 A) (leaves 1 N 1 B))"
    using 1(1) pair_post_export(1)[OF N pre 1(2)] l by (simp add: op_and_def)
  show "op_or N A B \<bind> to_bitset N = Some (map2 (\<or>) (leaves 1 N 1 A) (leaves 1 N 1 B))"
    using 2(1) pair_post_export(1)[OF N pre 2(2)] l by (simp add: op_or_def)
  show "op_xor N A B \<bind> to_bitset N = Some (map2 (\<noteq>) (leaves 1 N 1 A) (leaves 1 N 1 B))"
    using 3(1) pair_post_export(1)[OF N pre 3(2)] l by (simp add: op_xor_def)
qed

lemma map2_same_and: "map2 (\<and>) bs bs = bs"
  by (induction bs) auto

lemma map2_same_or: "map2 (\<or>) bs bs = bs"
  by (induction bs) auto

lemma map2_same_xor: "map2 (\<noteq>) bs bs = replicate (length bs) False"
  by (induction bs) auto

lemma op_not_leaves:
  assumes N: "0 < N" and len: "length t = 1 + 4 * N"
  shows "\<exists>t'. op_not N t = Some t' \<and> length t' = 1 + 4 * N \<and> summary_inv 1 N 1 t'
           \<and> leaves 1 N 1 t' = map Not (leaves 1 N 1 t)"
  using flip_rec_correct[OF node_root[OF N]] len
  by (auto simp: op_not_def flip_all_def segbitset_copy_def frame_def)

subsection \<open>Enumeration\<close>

lemma truepos_leaf: "truepos l l x t = (if t ! x then [l] else [])"
  by (simp add: truepos_def leaves_leaf)

lemma truepos_inner:
  assumes "l < r"
  shows "truepos l r x t
           = truepos l ((l + r) div 2) (ls x) t @ truepos ((l + r) div 2 + 1) r (rs x) t"
proof -
  let ?m = "(l + r) div 2"
  let ?L = "leaves l ?m (ls x) t" and ?R = "leaves (?m + 1) r (rs x) t"
  have rng: "l \<le> ?m" "?m < r" using assms by auto
  have lL: "length ?L = Suc ?m - l" using rng by (intro length_leaves)
  have sp: "[l..<Suc r] = [l..<Suc ?m] @ [Suc ?m..<Suc r]"
    using rng by (metis Suc_le_mono le_SucI less_imp_le_nat upt_add_eq_append le_iff_add)
  have a: "filter (\<lambda>p. (?L @ ?R) ! (p - l)) [l..<Suc ?m] = filter (\<lambda>p. ?L ! (p - l)) [l..<Suc ?m]"
  proof (rule filter_cong[OF refl])
    fix p assume "p \<in> set [l..<Suc ?m]"
    hence "p - l < length ?L" unfolding lL by auto
    thus "(?L @ ?R) ! (p - l) = ?L ! (p - l)" by (simp add: nth_append)
  qed
  have b: "filter (\<lambda>p. (?L @ ?R) ! (p - l)) [Suc ?m..<Suc r]
             = filter (\<lambda>p. ?R ! (p - (?m + 1))) [Suc ?m..<Suc r]"
  proof (rule filter_cong[OF refl])
    fix p assume "p \<in> set [Suc ?m..<Suc r]"
    hence "p - l = length ?L + (p - (?m + 1))" unfolding lL using rng by auto
    thus "(?L @ ?R) ! (p - l) = ?R ! (p - (?m + 1))" by simp
  qed
  show ?thesis
    unfolding truepos_def leaves_inner[OF assms, of x t] sp filter_append a b by simp
qed

lemma truepos_range: "p \<in> set (truepos l r x t) \<Longrightarrow> l \<le> p \<and> p \<le> r"
  by (auto simp: truepos_def)

lemma summary_truepos:
  assumes "node N l r x"
  shows "summary_inv l r x t \<longrightarrow> t ! x = (truepos l r x t \<noteq> [])"
  using assms
proof (induction rule: node_induct)
  case (leaf l x)
  show ?case by (simp add: truepos_leaf)
next
  case (inner l r x)
  thus ?case by (auto simp: summary_inv_inner truepos_inner)
qed

lemma first_ge_nil: "first_ge pos [] = 0"
  by (simp add: first_ge_def)

lemma first_ge_none: "\<forall>p \<in> set ps. p < pos \<Longrightarrow> first_ge pos ps = 0"
proof -
  assume "\<forall>p \<in> set ps. p < pos"
  hence "filter (\<lambda>p. pos \<le> p) ps = []" by (auto simp: filter_empty_conv)
  thus ?thesis by (simp add: first_ge_def)
qed

lemma first_ge_append:
  assumes "\<forall>p \<in> set ps. 0 < p"
  shows "first_ge pos (ps @ qs) = (if first_ge pos ps \<noteq> 0 then first_ge pos ps else first_ge pos qs)"
proof (cases "filter (\<lambda>p. pos \<le> p) ps")
  case Nil
  thus ?thesis by (simp add: first_ge_def)
next
  case (Cons p ps')
  hence "p \<in> set (filter (\<lambda>p. pos \<le> p) ps)" by simp
  hence "p \<in> set ps" by simp
  hence "0 < p" using assms by blast
  thus ?thesis using Cons by (simp add: first_ge_def)
qed

lemma next_rec_skip: "rd t x = Some False \<Longrightarrow> next_rec pos l r x t ans = Some ans"
  by (subst next_rec.simps) simp

lemma next_rec_past: "rd t x = Some True \<Longrightarrow> r < pos \<Longrightarrow> next_rec pos l r x t ans = Some ans"
  by (subst next_rec.simps) simp

lemma next_rec_leaf: "rd t x = Some True \<Longrightarrow> \<not> l < pos \<Longrightarrow> next_rec pos l l x t ans = Some l"
  by (subst next_rec.simps) simp

lemma next_rec_inner:
  "rd t x = Some True \<Longrightarrow> \<not> r < pos \<Longrightarrow> l \<noteq> r \<Longrightarrow>
   next_rec pos l r x t 0
     = (rd t (ls x) \<bind> (\<lambda>cl. if cl then next_rec pos l ((l + r) div 2) (ls x) t 0 else Some 0))
        \<bind> (\<lambda>ans1. if ans1 = 0
              then rd t (rs x) \<bind> (\<lambda>cr. if cr then next_rec pos ((l + r) div 2 + 1) r (rs x) t ans1
                                            else Some ans1)
              else Some ans1)"
  by (subst next_rec.simps) (simp add: Let_def)

lemma next_rec_correct:
  assumes "node N l r x" and len: "length t = 1 + 4 * N"
  shows "summary_inv l r x t \<longrightarrow> next_rec pos l r x t 0 = Some (first_ge pos (truepos l r x t))"
  using assms(1)
proof (induction rule: node_induct)
  case (leaf l x)
  have x: "x < length t" using node_bound[OF leaf] len by simp
  show ?case
  proof (cases "t ! x")
    case False
    thus ?thesis using x by (simp add: next_rec_skip rd_def truepos_leaf first_ge_def)
  next
    case True
    hence c: "rd t x = Some True" using x by (simp add: rd_def)
    show ?thesis
    proof (cases "l < pos")
      case True
      thus ?thesis using c \<open>t ! x\<close> by (simp add: next_rec_past truepos_leaf first_ge_def)
    next
      case False
      thus ?thesis using c \<open>t ! x\<close> by (simp add: next_rec_leaf truepos_leaf first_ge_def)
    qed
  qed
next
  case (inner l r x)
  let ?m = "(l + r) div 2"
  let ?TL = "truepos l ?m (ls x) t" and ?TR = "truepos (?m + 1) r (rs x) t"
  note b = node_children_bound[OF inner(1,2)]
  have x: "x < length t" "ls x < length t" "rs x < length t" using b len by simp_all
  have l1: "1 \<le> l" using inner(1) by (simp add: node_def)
  show ?case
  proof
    assume inv: "summary_inv l r x t"
    have il: "summary_inv l ?m (ls x) t" and ir: "summary_inv (?m + 1) r (rs x) t"
      using inv by (simp_all add: summary_inv_inner[OF inner(2)])
    have sx: "t ! x = (truepos l r x t \<noteq> [])"
      using summary_truepos[OF inner(1)] inv by blast
    have sl: "t ! ls x = (?TL \<noteq> [])"
      using summary_truepos[OF node_left[OF inner(1,2)]] il by blast
    have sr: "t ! rs x = (?TR \<noteq> [])"
      using summary_truepos[OF node_right[OF inner(1,2)]] ir by blast
    have nl: "next_rec pos l ?m (ls x) t 0 = Some (first_ge pos ?TL)" using inner(3) il by blast
    have nr: "next_rec pos (?m + 1) r (rs x) t 0 = Some (first_ge pos ?TR)" using inner(4) ir by blast
    have pl: "\<forall>p \<in> set ?TL. 0 < p" using truepos_range[of _ l ?m "ls x" t] l1 by fastforce
    note ap = first_ge_append[OF pl, of pos ?TR]
    show "next_rec pos l r x t 0 = Some (first_ge pos (truepos l r x t))"
    proof (cases "t ! x")
      case False
      thus ?thesis using x sx by (simp add: next_rec_skip rd_def first_ge_def)
    next
      case True
      hence c: "rd t x = Some True" using x by (simp add: rd_def)
      show ?thesis
      proof (cases "r < pos")
        case True
        hence "\<forall>p \<in> set (truepos l r x t). p < pos" using truepos_range[of _ l r x t] by fastforce
        thus ?thesis using c True by (simp add: next_rec_past first_ge_none)
      next
        case False
        have ne: "l \<noteq> r" using inner(2) by simp
        have 1: "(rd t (ls x) \<bind> (\<lambda>cl. if cl then next_rec pos l ?m (ls x) t 0 else Some 0))
                   = Some (first_ge pos ?TL)"
          using x(2) sl nl by (simp add: rd_def first_ge_nil)
        have 2: "(rd t (rs x) \<bind> (\<lambda>cr. if cr then next_rec pos (?m + 1) r (rs x) t 0 else Some 0))
                   = Some (first_ge pos ?TR)"
          using x(3) sr nr by (simp add: rd_def first_ge_nil)
        show ?thesis
        proof (cases "first_ge pos ?TL = 0")
          case True
          thus ?thesis
            unfolding next_rec_inner[OF c False ne] 1 truepos_inner[OF inner(2)] ap
            using 2 by simp
        next
          case False
          thus ?thesis
            unfolding next_rec_inner[OF c \<open>\<not> r < pos\<close> ne] 1 truepos_inner[OF inner(2)] ap
            by simp
        qed
      qed
    qed
  qed
qed

lemma foreach1_rec_skip: "rd t x = Some False \<Longrightarrow> foreach1_rec cb l r x t s = Some s"
  by (subst foreach1_rec.simps) simp

lemma foreach1_rec_leaf: "rd t x = Some True \<Longrightarrow> foreach1_rec cb l l x t s = Some (cb (l - 1) s)"
  by (subst foreach1_rec.simps) simp

lemma foreach1_rec_inner:
  "rd t x = Some True \<Longrightarrow> l \<noteq> r \<Longrightarrow>
   foreach1_rec cb l r x t s
     = rd t (ls x) \<bind> (\<lambda>cl. (if cl then foreach1_rec cb l ((l + r) div 2) (ls x) t s else Some s)
         \<bind> (\<lambda>s1. rd t (rs x) \<bind> (\<lambda>cr. if cr then foreach1_rec cb ((l + r) div 2 + 1) r (rs x) t s1
                                           else Some s1)))"
  by (subst foreach1_rec.simps) (simp add: Let_def)

lemma foreach1_rec_correct:
  assumes "node N l r x" and len: "length t = 1 + 4 * N"
  shows "summary_inv l r x t \<longrightarrow>
           (\<forall>s. foreach1_rec cb l r x t s = Some (fold cb (map (\<lambda>p. p - 1) (truepos l r x t)) s))"
  using assms(1)
proof (induction rule: node_induct)
  case (leaf l x)
  have x: "x < length t" using node_bound[OF leaf] len by simp
  show ?case
    using x by (cases "t ! x") (simp_all add: foreach1_rec_skip foreach1_rec_leaf rd_def truepos_leaf)
next
  case (inner l r x)
  let ?m = "(l + r) div 2"
  let ?TL = "truepos l ?m (ls x) t" and ?TR = "truepos (?m + 1) r (rs x) t"
  note b = node_children_bound[OF inner(1,2)]
  have x: "x < length t" "ls x < length t" "rs x < length t" using b len by simp_all
  show ?case
  proof (intro impI allI)
    fix s assume inv: "summary_inv l r x t"
    have il: "summary_inv l ?m (ls x) t" and ir: "summary_inv (?m + 1) r (rs x) t"
      using inv by (simp_all add: summary_inv_inner[OF inner(2)])
    have sx: "t ! x = (truepos l r x t \<noteq> [])"
      using summary_truepos[OF inner(1)] inv by blast
    have sl: "t ! ls x = (?TL \<noteq> [])"
      using summary_truepos[OF node_left[OF inner(1,2)]] il by blast
    have sr: "t ! rs x = (?TR \<noteq> [])"
      using summary_truepos[OF node_right[OF inner(1,2)]] ir by blast
    have nl: "foreach1_rec cb l ?m (ls x) t s' = Some (fold cb (map (\<lambda>p. p - 1) ?TL) s')" for s'
      using inner(3) il by blast
    have nr: "foreach1_rec cb (?m + 1) r (rs x) t s' = Some (fold cb (map (\<lambda>p. p - 1) ?TR) s')" for s'
      using inner(4) ir by blast
    show "foreach1_rec cb l r x t s = Some (fold cb (map (\<lambda>p. p - 1) (truepos l r x t)) s)"
    proof (cases "t ! x")
      case False
      thus ?thesis using x sx by (simp add: foreach1_rec_skip rd_def)
    next
      case True
      hence c: "rd t x = Some True" using x by (simp add: rd_def)
      have ne: "l \<noteq> r" using inner(2) by simp
      have 1: "(if t ! ls x then foreach1_rec cb l ?m (ls x) t s else Some s)
                 = Some (fold cb (map (\<lambda>p. p - 1) ?TL) s)"
        using sl nl by simp
      have 2: "(if t ! rs x then foreach1_rec cb (?m + 1) r (rs x) t s' else Some s')
                 = Some (fold cb (map (\<lambda>p. p - 1) ?TR) s')" for s'
        using sr nr by simp
      show ?thesis
        unfolding foreach1_rec_inner[OF c ne] truepos_inner[OF inner(2)]
        using x(2,3) 1 2 by (simp add: rd_def)
    qed
  qed
qed

lemma truepos_root: "map (\<lambda>p. p - 1) (truepos 1 N 1 t) = true_bits N t"
proof -
  have "truepos 1 N 1 t = filter (\<lambda>p. leaves 1 N 1 t ! (p - 1)) (map Suc [0..<N])"
    unfolding truepos_def map_Suc_upt by simp
  also have "\<dots> = map Suc (true_bits N t)"
    unfolding filter_map true_bits_def by (simp add: comp_def)
  finally show ?thesis by (simp add: comp_def)
qed

lemma truepos_root_Suc: "truepos 1 N 1 t = map Suc (true_bits N t)"
proof -
  have "truepos 1 N 1 t = filter (\<lambda>p. leaves 1 N 1 t ! (p - 1)) (map Suc [0..<N])"
    unfolding truepos_def map_Suc_upt by simp
  also have "\<dots> = map Suc (true_bits N t)"
    unfolding filter_map true_bits_def by (simp add: comp_def)
  finally show ?thesis .
qed

lemma first_ge_Suc:
  "first_ge (Suc q) (map Suc is) = (case filter (\<lambda>i. q \<le> i) is of [] \<Rightarrow> 0 | i # _ \<Rightarrow> Suc i)"
  unfolding first_ge_def filter_map by (simp add: comp_def split: list.split)

lemma first_pos_correct:
  assumes N: "0 < N" and len: "length t = 1 + 4 * N" and inv: "summary_inv 1 N 1 t"
  shows "first_pos N t = Some (case true_bits N t of [] \<Rightarrow> N | i # _ \<Rightarrow> i)"
proof -
  have "next_rec 1 1 N 1 t 0 = Some (first_ge 1 (truepos 1 N 1 t))"
    using next_rec_correct[OF node_root[OF N] len, of 1] inv by blast
  hence "next_rec 1 1 N 1 t 0 = Some (first_ge (Suc 0) (map Suc (true_bits N t)))"
    unfolding truepos_root_Suc by simp
  thus ?thesis
    unfolding first_ge_Suc by (simp add: first_pos_def split: list.split)
qed

lemma next_pos_correct:
  assumes N: "0 < N" and len: "length t = 1 + 4 * N" and inv: "summary_inv 1 N 1 t"
  shows "next_pos N t q = Some (case filter (\<lambda>i. q < i) (true_bits N t) of [] \<Rightarrow> N | i # _ \<Rightarrow> i)"
proof -
  have "next_rec (q + 1 + 1) 1 N 1 t 0 = Some (first_ge (q + 1 + 1) (truepos 1 N 1 t))"
    using next_rec_correct[OF node_root[OF N] len, of "q + 1 + 1"] inv by blast
  hence "next_rec (q + 1 + 1) 1 N 1 t 0 = Some (first_ge (Suc (Suc q)) (map Suc (true_bits N t)))"
    unfolding truepos_root_Suc by simp
  moreover have "(\<lambda>i. Suc q \<le> i) = (\<lambda>i. q < i)" by auto
  ultimately show ?thesis
    unfolding first_ge_Suc by (simp add: next_pos_def Let_def split: list.split)
qed

lemma foreach1_correct:
  assumes N: "0 < N" and len: "length t = 1 + 4 * N" and inv: "summary_inv 1 N 1 t"
  shows "foreach1 cb N t s = Some (fold cb (true_bits N t) s)"
proof -
  have "foreach1_rec cb 1 N 1 t s = Some (fold cb (map (\<lambda>p. p - 1) (truepos 1 N 1 t)) s)"
    using foreach1_rec_correct[OF node_root[OF N] len, of cb] inv by blast
  thus ?thesis unfolding truepos_root by (simp add: foreach1_def)
qed

lemma true_bits_sorted: "sorted_wrt (<) (true_bits N t)"
  unfolding true_bits_def by (intro sorted_wrt_filter) (simp add: sorted_wrt_upt)

lemma true_bits_bound: "i \<in> set (true_bits N t) \<Longrightarrow> i < N"
  by (simp add: true_bits_def)

lemma filter_after:
  assumes "sorted_wrt (<) (ys @ p # zs)"
  shows "filter (\<lambda>i. (p::nat) < i) (ys @ p # zs) = zs"
proof -
  have a: "\<forall>y \<in> set ys. y < p" and b: "\<forall>z \<in> set zs. p < z"
    using assms by (auto simp: sorted_wrt_append)
  have "filter (\<lambda>i. p < i) ys = []" using a by (auto simp: filter_empty_conv)
  moreover have "filter (\<lambda>i. p < i) zs = zs" using b by (simp add: filter_id_conv)
  ultimately show ?thesis by simp
qed

lemma first_next_from_correct:
  assumes N: "0 < N" and len: "length t = 1 + 4 * N" and inv: "summary_inv 1 N 1 t"
  shows "true_bits N t = ys @ p # zs \<Longrightarrow> first_next_from N t p = Some (p # zs)"
proof (induction zs arbitrary: ys p)
  case Nil
  have p: "p \<noteq> N" using true_bits_bound[of p N t] Nil by auto
  have "filter (\<lambda>i. p < i) (true_bits N t) = []"
    using filter_after[of ys p "[]"] true_bits_sorted[of N t] Nil by simp
  hence "next_pos N t p = Some N" using next_pos_correct[OF N len inv, of p] by simp
  moreover have "first_next_from N t N = Some []" by (subst first_next_from.simps) simp
  ultimately show ?case using p by (subst first_next_from.simps) simp
next
  case (Cons z zs)
  have p: "p \<noteq> N" using true_bits_bound[of p N t] Cons.prems by auto
  have "filter (\<lambda>i. p < i) (true_bits N t) = z # zs"
    using filter_after[of ys p "z # zs"] true_bits_sorted[of N t] Cons.prems by simp
  hence "next_pos N t p = Some z" using next_pos_correct[OF N len inv, of p] by simp
  moreover have "first_next_from N t z = Some (z # zs)"
    using Cons.IH[of "ys @ [p]" z] Cons.prems by simp
  ultimately show ?case using p by (subst first_next_from.simps) simp
qed

lemma first_next_loop_correct:
  assumes N: "0 < N" and len: "length t = 1 + 4 * N" and inv: "summary_inv 1 N 1 t"
  shows "first_next_loop N t = Some (true_bits N t)"
proof (cases "true_bits N t")
  case Nil
  moreover have "first_next_from N t N = Some []" by (subst first_next_from.simps) simp
  ultimately show ?thesis using first_pos_correct[OF assms] by (simp add: first_next_loop_def)
next
  case (Cons p zs)
  thus ?thesis
    using first_pos_correct[OF assms] first_next_from_correct[OF assms, of "[]" p zs]
    by (simp add: first_next_loop_def)
qed

subsection \<open>Operations that keep the invariant\<close>

text \<open>
  The mutating operations other than the handle's \<^verbatim>\<open>flip()\<close> keep the summary invariant,
  and the point operations change the bit of their position only.
\<close>

lemma set_all_summary_inv:
  assumes "node N l r x" and len: "length t = 1 + 4 * N"
  shows "summary_inv l r x (set_all t)"
  using assms(1)
proof (induction rule: node_induct)
  case (leaf l x)
  show ?case by (simp add: summary_inv.simps[of l l])
next
  case (inner l r x)
  note b = node_children_bound[OF inner(1,2)]
  have "set_all t ! y = True" if "y < 1 + 4 * N" for y
    unfolding set_all_def len using that by (intro nth_replicate)
  hence "set_all t ! x = True" "set_all t ! ls x = True" using b by blast+
  thus ?case
    using inner(3,4) by (simp add: summary_inv_inner[OF inner(2)])
qed

lemma point_operations:
  assumes "0 < N" "length t = 1 + 4 * N" "pos < N"
  shows "\<exists>t1 t2 t3.
           set_pos N t pos v = Some (Returns (), t1) \<and> length t1 = 1 + 4 * N
             \<and> leaves 1 N 1 t1 = (leaves 1 N 1 t)[pos := True]
             \<and> (summary_inv 1 N 1 t \<longrightarrow> summary_inv 1 N 1 t1)
         \<and> reset_pos N t pos = Some (Returns (), t2) \<and> length t2 = 1 + 4 * N
             \<and> leaves 1 N 1 t2 = (leaves 1 N 1 t)[pos := False]
             \<and> (summary_inv 1 N 1 t \<longrightarrow> summary_inv 1 N 1 t2)
         \<and> flip_pos N t pos = Some (Returns (), t3) \<and> length t3 = 1 + 4 * N
             \<and> leaves 1 N 1 t3 = (leaves 1 N 1 t)[pos := \<not> leaves 1 N 1 t ! pos]
             \<and> (summary_inv 1 N 1 t \<longrightarrow> summary_inv 1 N 1 t3)"
proof -
  let ?b = "leaves 1 N 1 t ! pos"
  from pos_write[OF assms] obtain x where x:
    "find_rec (pos + 1) 1 N 1 = Some x" "rd t x = Some ?b"
    "\<And>v. \<exists>t'. (wr t x v \<bind> pushup_to_root (x div 2)) = Some t'
                  \<and> length t' = 1 + 4 * N
                  \<and> leaves 1 N 1 t' = (leaves 1 N 1 t)[pos := v]
                  \<and> (summary_inv 1 N 1 t \<longrightarrow> summary_inv 1 N 1 t')" by blast
  from x(3)[of True] obtain t1 where t1: "(wr t x True \<bind> pushup_to_root (x div 2)) = Some t1"
    "length t1 = 1 + 4 * N" "leaves 1 N 1 t1 = (leaves 1 N 1 t)[pos := True]"
    "summary_inv 1 N 1 t \<longrightarrow> summary_inv 1 N 1 t1" by blast
  from x(3)[of False] obtain t2 where t2: "(wr t x False \<bind> pushup_to_root (x div 2)) = Some t2"
    "length t2 = 1 + 4 * N" "leaves 1 N 1 t2 = (leaves 1 N 1 t)[pos := False]"
    "summary_inv 1 N 1 t \<longrightarrow> summary_inv 1 N 1 t2" by blast
  from x(3)[of "\<not> ?b"] obtain t3 where t3: "(wr t x (\<not> ?b) \<bind> pushup_to_root (x div 2)) = Some t3"
    "length t3 = 1 + 4 * N" "leaves 1 N 1 t3 = (leaves 1 N 1 t)[pos := \<not> ?b]"
    "summary_inv 1 N 1 t \<longrightarrow> summary_inv 1 N 1 t3" by blast
  have 1: "set_pos N t pos v = Some (Returns (), t1)"
    using x(1) t1(1) assms(3) by (auto simp: set_pos_def bind_eq_Some_conv)
  have 2: "reset_pos N t pos = Some (Returns (), t2)"
    using x(1) t2(1) assms(3) by (auto simp: reset_pos_def bind_eq_Some_conv)
  have 3: "flip_pos N t pos = Some (Returns (), t3)"
    using x(1,2) t3(1) assms(3) by (auto simp: flip_pos_def bind_eq_Some_conv)
  show ?thesis using 1 2 3 t1(2-) t2(2-) t3(2-) by blast
qed

lemma handle_operations:
  assumes "0 < N" "length t = 1 + 4 * N" "pos < N" "length u = 1 + 4 * N"
  shows "\<exists>x t1 t2 t3.
           index_ref N t pos = Some (Returns x, t)
         \<and> ref_bool x t = Some (leaves 1 N 1 t ! pos)
         \<and> ref_assign x t v = Some t1 \<and> length t1 = 1 + 4 * N
             \<and> leaves 1 N 1 t1 = (leaves 1 N 1 t)[pos := v]
             \<and> (summary_inv 1 N 1 t \<longrightarrow> summary_inv 1 N 1 t1)
         \<and> ref_assign_ref x t u = Some t2 \<and> length t2 = 1 + 4 * N
             \<and> leaves 1 N 1 t2 = (leaves 1 N 1 t)[pos := leaves 1 N 1 u ! pos]
             \<and> (summary_inv 1 N 1 t \<longrightarrow> summary_inv 1 N 1 t2)
         \<and> ref_flip x t = Some t3 \<and> length t3 = 1 + 4 * N"
proof -
  let ?b = "leaves 1 N 1 t ! pos" and ?c = "leaves 1 N 1 u ! pos"
  from pos_write[OF assms(1,2,3)] obtain x where x:
    "find_rec (pos + 1) 1 N 1 = Some x" "rd t x = Some ?b"
    "\<And>v. \<exists>t'. (wr t x v \<bind> pushup_to_root (x div 2)) = Some t'
                  \<and> length t' = 1 + 4 * N
                  \<and> leaves 1 N 1 t' = (leaves 1 N 1 t)[pos := v]
                  \<and> (summary_inv 1 N 1 t \<longrightarrow> summary_inv 1 N 1 t')" by blast
  from pos_write[OF assms(1,4,3)] x(1) have u: "rd u x = Some ?c" by auto
  from x(3)[of v] obtain t1 where t1: "(wr t x v \<bind> pushup_to_root (x div 2)) = Some t1"
    "length t1 = 1 + 4 * N" "leaves 1 N 1 t1 = (leaves 1 N 1 t)[pos := v]"
    "summary_inv 1 N 1 t \<longrightarrow> summary_inv 1 N 1 t1" by blast
  from x(3)[of ?c] obtain t2 where t2: "(wr t x ?c \<bind> pushup_to_root (x div 2)) = Some t2"
    "length t2 = 1 + 4 * N" "leaves 1 N 1 t2 = (leaves 1 N 1 t)[pos := ?c]"
    "summary_inv 1 N 1 t \<longrightarrow> summary_inv 1 N 1 t2" by blast
  have xl: "x < length t" using x(2) by (simp add: rd_def split: if_splits)
  have 0: "index_ref N t pos = Some (Returns x, t)" using x(1) assms(3) by (simp add: index_ref_def)
  have 1: "ref_assign x t v = Some t1"
    using t1(1) by (auto simp: ref_assign_def bind_eq_Some_conv)
  have 2: "ref_assign_ref x t u = Some t2"
    using u t2(1) by (auto simp: ref_assign_ref_def bind_eq_Some_conv)
  have 3: "ref_flip x t = Some (t[x := \<not> ?b])" using x(2) xl by (simp add: ref_flip_def wr_def)
  show ?thesis
    using 0 1 2 3 x(2) t1(2-) t2(2-) assms(2) by (simp add: ref_bool_def)
qed

lemma bulk_operations:
  assumes N: "0 < N" and len: "length t = 1 + 4 * N"
  shows "length (set_all t) = 1 + 4 * N \<and> summary_inv 1 N 1 (set_all t)
       \<and> (\<exists>t'. flip_all N t = Some t' \<and> length t' = 1 + 4 * N \<and> summary_inv 1 N 1 t'
                \<and> leaves 1 N 1 t' = map Not (leaves 1 N 1 t))
       \<and> (summary_inv 1 N 1 t \<longrightarrow>
            (\<exists>t'. reset_all N t = Some t' \<and> length t' = 1 + 4 * N \<and> summary_inv 1 N 1 t'
                  \<and> leaves 1 N 1 t' = replicate N False))"
proof -
  have a: "length (set_all t) = 1 + 4 * N \<and> summary_inv 1 N 1 (set_all t)"
    using set_all_summary_inv[OF node_root[OF N] len] len by (simp add: set_all_def)
  have b: "\<exists>t'. flip_all N t = Some t' \<and> length t' = 1 + 4 * N \<and> summary_inv 1 N 1 t'
                \<and> leaves 1 N 1 t' = map Not (leaves 1 N 1 t)"
    using flip_rec_correct[OF node_root[OF N]] len by (auto simp: flip_all_def frame_def)
  have c: "\<exists>t'. reset_all N t = Some t' \<and> length t' = 1 + 4 * N \<and> summary_inv 1 N 1 t'
                  \<and> leaves 1 N 1 t' = replicate N False" if "summary_inv 1 N 1 t"
    using reset_rec_correct[OF node_root[OF N]] len that by (auto simp: reset_all_def frame_def)
  show ?thesis using a b c by blast
qed

lemma pairwise_assignments:
  assumes N: "0 < N" and len: "length (h this) = 1 + 4 * N" "length (h other) = 1 + 4 * N"
    and inv: "summary_inv 1 N 1 (h this)" "summary_inv 1 N 1 (h other)"
  shows "\<exists>h1 h2 h3.
           op_and_assign N this other h = Some h1 \<and> length (h1 this) = 1 + 4 * N
             \<and> summary_inv 1 N 1 (h1 this)
             \<and> leaves 1 N 1 (h1 this) = map2 (\<and>) (leaves 1 N 1 (h this)) (leaves 1 N 1 (h other))
         \<and> op_or_assign N this other h = Some h2 \<and> length (h2 this) = 1 + 4 * N
             \<and> summary_inv 1 N 1 (h2 this)
             \<and> leaves 1 N 1 (h2 this) = map2 (\<or>) (leaves 1 N 1 (h this)) (leaves 1 N 1 (h other))
         \<and> op_xor_assign N this other h = Some h3 \<and> length (h3 this) = 1 + 4 * N
             \<and> summary_inv 1 N 1 (h3 this)
             \<and> leaves 1 N 1 (h3 this) = map2 (\<noteq>) (leaves 1 N 1 (h this)) (leaves 1 N 1 (h other))"
proof -
  have pre: "pair_pre N this other 1 N 1 h" using len inv by (simp add: pair_pre_def)
  from pair_top[OF N pre] obtain h1 h2 h3 where
    1: "op_and_assign N this other h = Some h1" "pair_post (\<and>) this other 1 N 1 h h1" and
    2: "op_or_assign N this other h = Some h2" "pair_post (\<or>) this other 1 N 1 h h2" and
    3: "op_xor_assign N this other h = Some h3" "pair_post (\<noteq>) this other 1 N 1 h h3" by blast
  show ?thesis
    using 1 2 3 pair_post_export(2,3)[OF N pre 1(2)] pair_post_export(2,3)[OF N pre 2(2)]
      pair_post_export(2,3)[OF N pre 3(2)]
    by (intro exI[of _ h1] exI[of _ h2] exI[of _ h3]) (simp add: pair_post_def)
qed

subsection \<open>Assignments of a structure to itself\<close>

text \<open>
  With both operands the same object, the results below need no invariant.
\<close>

lemma and_assign_self:
  assumes "node N l r x"
  shows "\<forall>h. length (h p) = 1 + 4 * N \<longrightarrow>
           (\<exists>h'. and_assign_rec p p l r x h = Some h' \<and> frame x (h p) (h' p)
                 \<and> leaves l r x (h' p) = leaves l r x (h p))"
  using assms
proof (induction rule: node_induct)
  case (leaf l x)
  show ?case
  proof (intro allI impI)
    fix h :: store assume len: "length (h p) = 1 + 4 * N"
    have x: "x < length (h p)" using node_bound[OF leaf] len by simp
    show "\<exists>h'. and_assign_rec p p l l x h = Some h' \<and> frame x (h p) (h' p)
                 \<and> leaves l l x (h' p) = leaves l l x (h p)"
    proof (cases "h p ! x")
      case True
      hence "rd (h p) x = Some True" using x by (simp add: rd_def)
      hence "and_assign_rec p p l l x h = Some (h(p := (h p)[x := (h p ! x \<and> h p ! x)]))"
        using x by (simp add: and_assign_rec_leaf)
      thus ?thesis using x frame_update frame_refl by (simp add: leaves_leaf)
    next
      case False
      hence "rd (h p) x = Some False" using x by (simp add: rd_def)
      hence "and_assign_rec p p l l x h = Some h" by (simp add: and_assign_rec_skip)
      thus ?thesis using frame_refl by simp
    qed
  qed
next
  case (inner l r x)
  let ?m = "(l + r) div 2"
  note b = node_children_bound[OF inner(1,2)]
  show ?case
  proof (intro allI impI)
    fix h :: store assume len: "length (h p) = 1 + 4 * N"
    have x: "x < length (h p)" using node_bound[OF inner(1)] len by simp
    have ne: "l \<noteq> r" using inner(2) by simp
    show "\<exists>h'. and_assign_rec p p l r x h = Some h' \<and> frame x (h p) (h' p)
                 \<and> leaves l r x (h' p) = leaves l r x (h p)"
    proof (cases "h p ! x")
      case False
      hence "rd (h p) x = Some False" using x by (simp add: rd_def)
      hence "and_assign_rec p p l r x h = Some h" by (simp add: and_assign_rec_skip)
      thus ?thesis using frame_refl by simp
    next
      case True
      hence c: "rd (h p) x = Some True" using x by (simp add: rd_def)
      from inner(3) len obtain h1 where h1: "and_assign_rec p p l ?m (ls x) h = Some h1"
        "frame (ls x) (h p) (h1 p)" "leaves l ?m (ls x) (h1 p) = leaves l ?m (ls x) (h p)"
        by blast
      have len1: "length (h1 p) = 1 + 4 * N" using h1(2) len by (simp add: frame_def)
      from inner(4) len1 obtain h2 where h2: "and_assign_rec p p (?m + 1) r (rs x) h1 = Some h2"
        "frame (rs x) (h1 p) (h2 p)"
        "leaves (?m + 1) r (rs x) (h2 p) = leaves (?m + 1) r (rs x) (h1 p)"
        by blast
      from inner_step[OF inner(1,2) len h1(2) h2(2)] obtain t3 where t3:
        "pushup x (h2 p) = Some t3" "frame x (h p) t3"
        "leaves l r x t3 = leaves l ?m (ls x) (h1 p) @ leaves (?m + 1) r (rs x) (h2 p)"
        by blast
      have "and_assign_rec p p l r x h = Some (h2(p := t3))"
        using c ne h1(1) h2(1) t3(1) by (simp add: and_assign_rec_inner)
      moreover have "leaves l r x t3 = leaves l r x (h p)"
        unfolding t3(3) h1(3) h2(3) leaves_same[OF frame_ls_same_rs[OF b(4) h1(2)]]
          leaves_inner[OF inner(2), of x "h p"] ..
      ultimately show ?thesis using t3(2) by simp
    qed
  qed
qed

lemma or_assign_self:
  assumes "node N l r x"
  shows "\<forall>h. length (h p) = 1 + 4 * N \<longrightarrow>
           (\<exists>h'. or_assign_rec p p l r x h = Some h' \<and> frame x (h p) (h' p)
                 \<and> leaves l r x (h' p) = leaves l r x (h p))"
  using assms
proof (induction rule: node_induct)
  case (leaf l x)
  show ?case
  proof (intro allI impI)
    fix h :: store assume len: "length (h p) = 1 + 4 * N"
    have x: "x < length (h p)" using node_bound[OF leaf] len by simp
    show "\<exists>h'. or_assign_rec p p l l x h = Some h' \<and> frame x (h p) (h' p)
                 \<and> leaves l l x (h' p) = leaves l l x (h p)"
    proof (cases "h p ! x")
      case True
      hence "rd (h p) x = Some True" using x by (simp add: rd_def)
      hence "or_assign_rec p p l l x h = Some (h(p := (h p)[x := (h p ! x \<or> h p ! x)]))"
        using x by (simp add: or_assign_rec_leaf)
      thus ?thesis using x frame_update frame_refl by (simp add: leaves_leaf)
    next
      case False
      hence "rd (h p) x = Some False" using x by (simp add: rd_def)
      hence "or_assign_rec p p l l x h = Some h" by (simp add: or_assign_rec_skip)
      thus ?thesis using frame_refl by simp
    qed
  qed
next
  case (inner l r x)
  let ?m = "(l + r) div 2"
  note b = node_children_bound[OF inner(1,2)]
  show ?case
  proof (intro allI impI)
    fix h :: store assume len: "length (h p) = 1 + 4 * N"
    have x: "x < length (h p)" using node_bound[OF inner(1)] len by simp
    have ne: "l \<noteq> r" using inner(2) by simp
    show "\<exists>h'. or_assign_rec p p l r x h = Some h' \<and> frame x (h p) (h' p)
                 \<and> leaves l r x (h' p) = leaves l r x (h p)"
    proof (cases "h p ! x")
      case False
      hence "rd (h p) x = Some False" using x by (simp add: rd_def)
      hence "or_assign_rec p p l r x h = Some h" by (simp add: or_assign_rec_skip)
      thus ?thesis using frame_refl by simp
    next
      case True
      hence c: "rd (h p) x = Some True" using x by (simp add: rd_def)
      from inner(3) len obtain h1 where h1: "or_assign_rec p p l ?m (ls x) h = Some h1"
        "frame (ls x) (h p) (h1 p)" "leaves l ?m (ls x) (h1 p) = leaves l ?m (ls x) (h p)"
        by blast
      have len1: "length (h1 p) = 1 + 4 * N" using h1(2) len by (simp add: frame_def)
      from inner(4) len1 obtain h2 where h2: "or_assign_rec p p (?m + 1) r (rs x) h1 = Some h2"
        "frame (rs x) (h1 p) (h2 p)"
        "leaves (?m + 1) r (rs x) (h2 p) = leaves (?m + 1) r (rs x) (h1 p)"
        by blast
      from inner_step[OF inner(1,2) len h1(2) h2(2)] obtain t3 where t3:
        "pushup x (h2 p) = Some t3" "frame x (h p) t3"
        "leaves l r x t3 = leaves l ?m (ls x) (h1 p) @ leaves (?m + 1) r (rs x) (h2 p)"
        by blast
      have "or_assign_rec p p l r x h = Some (h2(p := t3))"
        using c ne h1(1) h2(1) t3(1) by (simp add: or_assign_rec_inner)
      moreover have "leaves l r x t3 = leaves l r x (h p)"
        unfolding t3(3) h1(3) h2(3) leaves_same[OF frame_ls_same_rs[OF b(4) h1(2)]]
          leaves_inner[OF inner(2), of x "h p"] ..
      ultimately show ?thesis using t3(2) by simp
    qed
  qed
qed

lemma xor_assign_self:
  assumes "node N l r x"
  shows "\<forall>h. length (h p) = 1 + 4 * N \<longrightarrow>
           (\<exists>h'. xor_assign_rec p p l r x h = Some h' \<and> frame x (h p) (h' p) \<and> \<not> h' p ! x)"
  using assms
proof (induction rule: node_induct)
  case (leaf l x)
  show ?case
  proof (intro allI impI)
    fix h :: store assume len: "length (h p) = 1 + 4 * N"
    have x: "x < length (h p)" using node_bound[OF leaf] len by simp
    show "\<exists>h'. xor_assign_rec p p l l x h = Some h' \<and> frame x (h p) (h' p) \<and> \<not> h' p ! x"
    proof (cases "h p ! x")
      case True
      hence "rd (h p) x = Some True" using x by (simp add: rd_def)
      hence "xor_assign_rec p p l l x h = Some (h(p := (h p)[x := (h p ! x \<noteq> h p ! x)]))"
        using x by (simp add: xor_assign_rec_leaf)
      thus ?thesis using x frame_update by simp
    next
      case False
      hence "rd (h p) x = Some False" using x by (simp add: rd_def)
      hence "xor_assign_rec p p l l x h = Some h" by (simp add: xor_assign_rec_skip)
      thus ?thesis using frame_refl False by simp
    qed
  qed
next
  case (inner l r x)
  let ?m = "(l + r) div 2"
  note b = node_children_bound[OF inner(1,2)]
  show ?case
  proof (intro allI impI)
    fix h :: store assume len: "length (h p) = 1 + 4 * N"
    have x: "x < length (h p)" using node_bound[OF inner(1)] len by simp
    have ne: "l \<noteq> r" using inner(2) by simp
    show "\<exists>h'. xor_assign_rec p p l r x h = Some h' \<and> frame x (h p) (h' p) \<and> \<not> h' p ! x"
    proof (cases "h p ! x")
      case False
      hence "rd (h p) x = Some False" using x by (simp add: rd_def)
      hence "xor_assign_rec p p l r x h = Some h" by (simp add: xor_assign_rec_skip)
      thus ?thesis using frame_refl False by simp
    next
      case True
      hence c: "rd (h p) x = Some True" using x by (simp add: rd_def)
      from inner(3) len obtain h1 where h1: "xor_assign_rec p p l ?m (ls x) h = Some h1"
        "frame (ls x) (h p) (h1 p)" "\<not> h1 p ! ls x"
        by blast
      have len1: "length (h1 p) = 1 + 4 * N" using h1(2) len by (simp add: frame_def)
      from inner(4) len1 obtain h2 where h2: "xor_assign_rec p p (?m + 1) r (rs x) h1 = Some h2"
        "frame (rs x) (h1 p) (h2 p)" "\<not> h2 p ! rs x"
        by blast
      have len2: "length (h2 p) = 1 + 4 * N" using h2(2) len1 by (simp add: frame_def)
      have l2: "\<not> h2 p ! ls x"
        using same_below_nth[OF frame_rs_same_ls[OF b(4) h2(2)]] h1(3) by simp
      let ?t3 = "(h2 p)[x := (h2 p ! ls x \<or> h2 p ! rs x)]"
      have pu: "pushup x (h2 p) = Some ?t3" using b len2 by (intro pushup_Some) simp
      have fr: "frame x (h p) ?t3"
        using frame_trans[OF frame_trans[OF frame_ls[OF h1(2)] frame_rs[OF h2(2)]] frame_update] .
      have "xor_assign_rec p p l r x h = Some (h2(p := ?t3))"
        using c ne h1(1) h2(1) pu by (simp add: xor_assign_rec_inner)
      moreover have "\<not> ?t3 ! x" using l2 h2(3) b len2 by simp
      ultimately show ?thesis using fr by simp
    qed
  qed
qed

lemma self_assignments:
  assumes N: "0 < N" and len: "length (h p) = 1 + 4 * N"
  shows "\<exists>h1 h2 h3.
           op_and_assign N p p h = Some h1 \<and> to_bitset N (h1 p) = to_bitset N (h p)
         \<and> op_or_assign N p p h = Some h2 \<and> to_bitset N (h2 p) = to_bitset N (h p)
         \<and> op_xor_assign N p p h = Some h3 \<and> none (h3 p) = Some True"
proof -
  note r = node_root[OF N]
  from and_assign_self[OF r, of p] len obtain h1 where h1:
    "and_assign_rec p p 1 N 1 h = Some h1" "frame 1 (h p) (h1 p)"
    "leaves 1 N 1 (h1 p) = leaves 1 N 1 (h p)" by blast
  from or_assign_self[OF r, of p] len obtain h2 where h2:
    "or_assign_rec p p 1 N 1 h = Some h2" "frame 1 (h p) (h2 p)"
    "leaves 1 N 1 (h2 p) = leaves 1 N 1 (h p)" by blast
  from xor_assign_self[OF r, of p] len obtain h3 where h3:
    "xor_assign_rec p p 1 N 1 h = Some h3" "frame 1 (h p) (h3 p)" "\<not> h3 p ! 1" by blast
  have l: "length (h1 p) = 1 + 4 * N" "length (h2 p) = 1 + 4 * N" "length (h3 p) = 1 + 4 * N"
    using h1(2) h2(2) h3(2) len by (simp_all add: frame_def)
  have "to_bitset N (h1 p) = to_bitset N (h p)" "to_bitset N (h2 p) = to_bitset N (h p)"
    using to_bitset_leaves[OF N l(1)] to_bitset_leaves[OF N l(2)] to_bitset_leaves[OF N len]
      h1(3) h2(3) by simp_all
  moreover have "none (h3 p) = Some True" using h3(3) l(3) N by (simp add: none_def rd_def)
  ultimately show ?thesis
    using h1(1) h2(1) h3(1) by (simp add: op_and_assign_def op_or_assign_def op_xor_assign_def)
qed

subsection \<open>Lists of two elements\<close>

lemma list2_eq: "length xs = 2 \<Longrightarrow> xs = [xs ! 0, xs ! 1]"
  by (cases xs; cases "tl xs") auto

subsection \<open>Self-operations of a structure\<close>

text \<open>
  With both operands the same object of the store, for every tree of the size of capacity
  \<open>N\<close>: \<open>A &= A\<close> and \<open>A |= A\<close> leave the exported bits unchanged, \<open>A ^= A\<close> makes \<^verbatim>\<open>none()\<close>
  true, and the export of \<open>~~A\<close> is the export of \<open>A\<close>; when the tree satisfies the summary
  invariant, \<open>A ^= A\<close> makes every exported bit false.
\<close>

lemma self_operations_with_invariant:
  assumes N: "0 < N" and len: "length (h p) = 1 + 4 * N"
  shows "(\<exists>h'. op_and_assign N p p h = Some h' \<and> to_bitset N (h' p) = to_bitset N (h p))
       \<and> (\<exists>h'. op_or_assign N p p h = Some h' \<and> to_bitset N (h' p) = to_bitset N (h p))
       \<and> (\<exists>h'. op_xor_assign N p p h = Some h' \<and> none (h' p) = Some True
                \<and> (summary_inv 1 N 1 (h p) \<longrightarrow> to_bitset N (h' p) = Some (replicate N False)))
       \<and> op_not N (h p) \<bind> op_not N \<bind> to_bitset N = to_bitset N (h p)"
proof -
  from self_assignments[of N h p, OF N len] obtain h1 h2 h3 where s:
    "op_and_assign N p p h = Some h1" "to_bitset N (h1 p) = to_bitset N (h p)"
    "op_or_assign N p p h = Some h2" "to_bitset N (h2 p) = to_bitset N (h p)"
    "op_xor_assign N p p h = Some h3" "none (h3 p) = Some True" by blast
  have c: "to_bitset N (h3 p) = Some (replicate N False)" if inv: "summary_inv 1 N 1 (h p)"
  proof -
    from pairwise_assignments[of N h p p, OF N len len inv inv] s(5)
    have l: "length (h3 p) = 1 + 4 * N"
      "leaves 1 N 1 (h3 p) = map2 (\<noteq>) (leaves 1 N 1 (h p)) (leaves 1 N 1 (h p))" by auto
    show ?thesis
      unfolding to_bitset_leaves[OF N l(1)] l(2) map2_same_xor length_leaves_root[OF N] ..
  qed
  from op_not_leaves[OF N len] obtain t1 where t1: "op_not N (h p) = Some t1"
    "length t1 = 1 + 4 * N" "leaves 1 N 1 t1 = map Not (leaves 1 N 1 (h p))" by blast
  from op_not_leaves[OF N t1(2)] obtain t2 where t2: "op_not N t1 = Some t2"
    "length t2 = 1 + 4 * N" "leaves 1 N 1 t2 = map Not (leaves 1 N 1 t1)" by blast
  have f: "op_not N (h p) \<bind> op_not N \<bind> to_bitset N = to_bitset N (h p)"
    using t1 t2 to_bitset_leaves[OF N len] to_bitset_leaves[OF N t2(2)] by (simp add: comp_def)
  show ?thesis using s c f by blast
qed

section \<open>Claims\<close>

text \<open>
  C1. After every public mutating operation, every inner node holds the OR of its two
  children. The handle's \<^verbatim>\<open>flip()\<close> writes the leaf and does not recompute the summaries
  above it: on the empty structure of capacity 2, the handle of position 0 is slot 2, and
  after \<^verbatim>\<open>flip()\<close> slot 2 is true while the root, slot 1, is still false. The invariant
  held before and does not hold after; \<^verbatim>\<open>test(0)\<close> is true and \<^verbatim>\<open>any()\<close> is false.
\<close>

theorem ref_flip_breaks_invariant:
  "index_ref 2 (segbitset_empty 2) 0 = Some (Returns 2, segbitset_empty 2)
   \<and> summary_inv 1 2 1 (segbitset_empty 2)
   \<and> ref_flip 2 (segbitset_empty 2) = Some [False, False, True, False, False, False, False, False, False]
   \<and> \<not> summary_inv 1 2 1 [False, False, True, False, False, False, False, False, False]
   \<and> test 2 [False, False, True, False, False, False, False, False, False] 0
        = Some (Returns True, [False, False, True, False, False, False, False, False, False])
   \<and> any_bit [False, False, True, False, False, False, False, False, False] = Some False"
  by code_simp

text \<open>
  C2. \<^verbatim>\<open>set(pos, v)\<close> stores \<open>v\<close> at \<open>pos\<close>, and \<^verbatim>\<open>set(pos, false)\<close> is \<^verbatim>\<open>reset(pos)\<close>.
  The body of \<^verbatim>\<open>set(size_t, bool)\<close> writes 1 whatever \<^verbatim>\<open>value\<close> is: on the empty
  structure of capacity 1, \<^verbatim>\<open>set(0, false)\<close> leaves position 0 true, where \<^verbatim>\<open>reset(0)\<close>
  leaves the structure empty.
\<close>

theorem set_pos_ignores_value:
  "set_pos 1 (segbitset_empty 1) 0 False = Some (Returns (), [False, True, False, False, False])
   \<and> test 1 [False, True, False, False, False] 0 = Some (Returns True, [False, True, False, False, False])
   \<and> reset_pos 1 (segbitset_empty 1) 0 = Some (Returns (), segbitset_empty 1)"
  by code_simp

text \<open>
  C3. For every dense boolean vector \<open>v\<close> of length \<open>N\<close> (with \<open>N > 0\<close>), building a
  structure from \<open>v\<close> and exporting it again returns \<open>v\<close>: both calls have a defined
  result and the exported vector is \<open>v\<close>, position for position.
\<close>

theorem round_trip:
  assumes "0 < N" "length v = N"
  shows "segbitset_from N v \<bind> to_bitset N = Some v"
proof -
  from segbitset_from_correct[OF assms] obtain t where
    "segbitset_from N v = Some t" "length t = 1 + 4 * N" "leaves 1 N 1 t = v" by blast
  thus ?thesis using to_bitset_leaves[OF assms(1)] by simp
qed

theorem round_trip_witness:
  "0 < (3::nat) \<and> length [True, False, True] = 3
   \<and> segbitset_from 3 [True, False, True] \<bind> to_bitset 3 = Some [True, False, True]"
  using round_trip[of 3 "[True, False, True]"] by simp

text \<open>
  C4. For structures \<open>A\<close> and \<open>B\<close> of one capacity \<open>N\<close> built from dense vectors \<open>a\<close> and
  \<open>b\<close>, the operators \<^verbatim>\<open>&\<close>, \<^verbatim>\<open>|\<close> and \<^verbatim>\<open>^\<close> are pointwise: every call has a defined
  result, and at every index \<open>i < N\<close> the export of \<open>A & B\<close> holds \<open>a[i] && b[i]\<close>, the
  export of \<open>A | B\<close> holds \<open>a[i] || b[i]\<close> and the export of \<open>A ^ B\<close> holds \<open>a[i] != b[i]\<close>.
\<close>

theorem boolean_algebra:
  assumes "0 < N" "length a = N" "length b = N"
  shows "\<exists>A B ea eo ex.
           segbitset_from N a = Some A \<and> segbitset_from N b = Some B
         \<and> op_and N A B \<bind> to_bitset N = Some ea
         \<and> op_or N A B \<bind> to_bitset N = Some eo
         \<and> op_xor N A B \<bind> to_bitset N = Some ex
         \<and> length ea = N \<and> length eo = N \<and> length ex = N
         \<and> (\<forall>i<N. ea ! i = (a ! i \<and> b ! i) \<and> eo ! i = (a ! i \<or> b ! i) \<and> ex ! i = (a ! i \<noteq> b ! i))"
proof -
  from segbitset_from_correct[OF assms(1,2)] obtain A where A:
    "segbitset_from N a = Some A" "length A = 1 + 4 * N" "summary_inv 1 N 1 A" "leaves 1 N 1 A = a"
    by blast
  from segbitset_from_correct[OF assms(1,3)] obtain B where B:
    "segbitset_from N b = Some B" "length B = 1 + 4 * N" "summary_inv 1 N 1 B" "leaves 1 N 1 B = b"
    by blast
  note ops = binary_operators[OF assms(1) A(2) B(2) A(3) B(3), unfolded A(4) B(4)]
  show ?thesis
    using A(1) B(1) ops assms(2,3)
    by (intro exI[of _ A] exI[of _ B] exI[of _ "map2 (\<and>) a b"] exI[of _ "map2 (\<or>) a b"]
          exI[of _ "map2 (\<noteq>) a b"]) simp
qed

theorem boolean_algebra_witness:
  "0 < (2::nat) \<and> length [True, True] = 2 \<and> length [False, True] = 2
   \<and> (\<exists>A B. segbitset_from 2 [True, True] = Some A \<and> segbitset_from 2 [False, True] = Some B
         \<and> op_and 2 A B \<bind> to_bitset 2 = Some [False, True]
         \<and> op_or 2 A B \<bind> to_bitset 2 = Some [True, True]
         \<and> op_xor 2 A B \<bind> to_bitset 2 = Some [True, False])"
proof -
  from boolean_algebra[of 2 "[True, True]" "[False, True]"] obtain A B ea eo ex where r:
    "segbitset_from 2 [True, True] = Some A" "segbitset_from 2 [False, True] = Some B"
    "op_and 2 A B \<bind> to_bitset 2 = Some ea" "op_or 2 A B \<bind> to_bitset 2 = Some eo"
    "op_xor 2 A B \<bind> to_bitset 2 = Some ex" "length ea = 2" "length eo = 2" "length ex = 2"
    "\<forall>i<2. ea ! i = ([True, True] ! i \<and> [False, True] ! i)
           \<and> eo ! i = ([True, True] ! i \<or> [False, True] ! i)
           \<and> ex ! i = ([True, True] ! i \<noteq> [False, True] ! i)"
    by auto
  have "ea = [False, True]" "eo = [True, True]" "ex = [True, False]"
    using list2_eq[OF r(6)] list2_eq[OF r(7)] list2_eq[OF r(8)] r(9) by (simp_all add: less_Suc_eq numeral_2_eq_2)
  thus ?thesis using r(1-5) by simp
qed

text \<open>
  C5. For the structure built from a dense vector \<open>v\<close> of length \<open>N\<close>: the positions
  visited by the loop \<^verbatim>\<open>for (p = first(); p != N; p = next(p))\<close>, and the arguments of
  the callback in one \<^verbatim>\<open>foreach1\<close> traversal, in the order of the calls, are the ascending
  list of the indices \<open>i\<close> with \<open>v[i]\<close> true (for any callback, \<^verbatim>\<open>foreach1\<close> applies it to
  these indices in this order); if \<open>v\<close> is all false then \<^verbatim>\<open>first()\<close> is \<open>N\<close>; and for any
  position \<open>p < N\<close> with no true bit at an index greater than \<open>p\<close>, \<^verbatim>\<open>next(p)\<close> is \<open>N\<close>.
\<close>

theorem enumeration:
  assumes "0 < N" "length v = N"
  shows "\<exists>t. segbitset_from N v = Some t
           \<and> first_next_loop N t = Some (filter (\<lambda>i. v ! i) [0..<N])
           \<and> (\<forall>cb s. foreach1 cb N t s = Some (fold cb (filter (\<lambda>i. v ! i) [0..<N]) (s::'s)))
           \<and> foreach1 (\<lambda>p ps. ps @ [p]) N t [] = Some (filter (\<lambda>i. v ! i) [0..<N])
           \<and> ((\<forall>i<N. \<not> v ! i) \<longrightarrow> first_pos N t = Some N)
           \<and> (\<forall>p<N. (\<forall>i<N. p < i \<longrightarrow> \<not> v ! i) \<longrightarrow> next_pos N t p = Some N)"
proof -
  from segbitset_from_correct[OF assms] obtain t where t:
    "segbitset_from N v = Some t" "length t = 1 + 4 * N" "summary_inv 1 N 1 t" "leaves 1 N 1 t = v"
    by blast
  let ?T = "filter (\<lambda>i. v ! i) [0..<N]"
  have T: "true_bits N t = ?T" using t(4) by (simp add: true_bits_def)
  note w = assms(1) t(2,3)
  have 1: "first_next_loop N t = Some ?T" using first_next_loop_correct[OF w] T by simp
  have 2: "foreach1 cb N t s = Some (fold cb ?T s)" for cb :: "nat \<Rightarrow> 'b \<Rightarrow> 'b" and s
    using foreach1_correct[OF w, of cb s] T by simp
  have "fold (\<lambda>p ps. ps @ [p]) xs ys = ys @ xs" for xs ys :: "nat list"
    by (induction xs arbitrary: ys) simp_all
  hence 3: "foreach1 (\<lambda>p ps. ps @ [p]) N t [] = Some ?T" using 2[of "\<lambda>p ps. ps @ [p]" "[]"] by simp
  have 4: "first_pos N t = Some N" if "\<forall>i<N. \<not> v ! i"
  proof -
    have "?T = []" using that by (auto simp: filter_empty_conv)
    thus ?thesis using first_pos_correct[OF w] T by simp
  qed
  have 5: "next_pos N t p = Some N" if "\<forall>i<N. p < i \<longrightarrow> \<not> v ! i" for p
  proof -
    have "filter (\<lambda>i. p < i) ?T = []" using that by (auto simp: filter_empty_conv)
    thus ?thesis using next_pos_correct[OF w, of p] T by simp
  qed
  show ?thesis using t(1) 1 2 3 4 5 by blast
qed

theorem enumeration_witness:
  "0 < (3::nat) \<and> length [False, True, False] = 3 \<and> length [False, False, False] = 3
   \<and> (\<exists>t. segbitset_from 3 [False, True, False] = Some t
          \<and> first_next_loop 3 t = Some [1]
          \<and> foreach1 (\<lambda>p ps. ps @ [p]) 3 t [] = Some [1]
          \<and> (1::nat) < 3 \<and> \<not> [False, True, False] ! 2
          \<and> next_pos 3 t 1 = Some 3)
   \<and> \<not> [False, False, False] ! 0 \<and> \<not> [False, False, False] ! 1 \<and> \<not> [False, False, False] ! 2
   \<and> (\<exists>t. segbitset_from 3 [False, False, False] = Some t
          \<and> first_pos 3 t = Some 3 \<and> first_next_loop 3 t = Some [])"
proof -
  have u: "[0..<3] = [0, 1, 2]" by (simp add: upt_rec)
  have a: "\<forall>i<3. (1::nat) < i \<longrightarrow> \<not> [False, True, False] ! i"
    by (simp add: less_Suc_eq numeral_3_eq_3)
  have b: "\<forall>i<3::nat. \<not> [False, False, False] ! i"
    by (simp add: less_Suc_eq numeral_3_eq_3)
  from enumeration[of 3 "[False, True, False]", where 's = "nat list"] obtain t where t:
    "segbitset_from 3 [False, True, False] = Some t"
    "first_next_loop 3 t = Some (filter (\<lambda>i. [False, True, False] ! i) [0..<3])"
    "foreach1 (\<lambda>p ps. ps @ [p]) 3 t [] = Some (filter (\<lambda>i. [False, True, False] ! i) [0..<3])"
    "\<forall>p<3. (\<forall>i<3. p < i \<longrightarrow> \<not> [False, True, False] ! i) \<longrightarrow> next_pos 3 t p = Some 3"
    by auto
  from enumeration[of 3 "[False, False, False]", where 's = "nat list"] obtain t0 where t0:
    "segbitset_from 3 [False, False, False] = Some t0"
    "first_next_loop 3 t0 = Some (filter (\<lambda>i. [False, False, False] ! i) [0..<3])"
    "(\<forall>i<3. \<not> [False, False, False] ! i) \<longrightarrow> first_pos 3 t0 = Some 3"
    by auto
  have "next_pos 3 t 1 = Some 3" using t(4) a by simp
  moreover have "first_pos 3 t0 = Some 3" using t0(3) b by blast
  ultimately show ?thesis using t(1,2,3) t0(1,2) a b unfolding u by auto
qed

text \<open>
  C6. \<open>A == B\<close> is true exactly when every position holds the same bit in both,
  however \<open>A\<close> and \<open>B\<close> were produced. \<^verbatim>\<open>__equal\<close> passes \<^verbatim>\<open>r, m + 1\<close> for the right
  child where every other traversal passes \<^verbatim>\<open>m + 1, r\<close>, so below the root its ranges
  no longer tell leaves from inner nodes and it compares slots under the leaves. For
  capacity 4, let \<open>A\<close> be the empty structure after \<^verbatim>\<open>set()\<close> and \<open>B\<close> the structure built
  from four true bits: both export four true bits, and \<open>A == B\<close> is false. Comparing
  \<open>A\<close> with itself, or a structure built for capacity 6 with itself, reads a slot outside
  the tree and has no defined result.
\<close>

theorem op_eq_same_bits_unequal:
  "segbitset_from 4 [True, True, True, True]
     = Some [False, True, True, True, True, True, True, True,
             False, False, False, False, False, False, False, False, False]
   \<and> to_bitset 4 (set_all (segbitset_empty 4)) = Some [True, True, True, True]
   \<and> to_bitset 4 [False, True, True, True, True, True, True, True,
                   False, False, False, False, False, False, False, False, False]
        = Some [True, True, True, True]
   \<and> op_eq 4 (set_all (segbitset_empty 4))
        [False, True, True, True, True, True, True, True,
         False, False, False, False, False, False, False, False, False] = Some False
   \<and> op_eq 4 (set_all (segbitset_empty 4)) (set_all (segbitset_empty 4)) = None
   \<and> (segbitset_from 6 [False, False, False, False, True, False] \<bind> (\<lambda>b. op_eq 6 b b)) = None"
  by code_simp

text \<open>
  C7. For every position \<open>pos \<ge> N\<close>, each of \<^verbatim>\<open>test\<close>, \<^verbatim>\<open>set\<close>, \<^verbatim>\<open>reset\<close>, \<^verbatim>\<open>flip\<close> and
  the non-const \<^verbatim>\<open>operator[]\<close> throws \<^verbatim>\<open>out_of_range\<close>, and the tree at the throw is the
  tree at the call: every slot is what it was.
\<close>

theorem out_of_range_unmodified:
  assumes "N \<le> pos"
  shows "test N t pos = Some (Throws out_of_range, t)
       \<and> set_pos N t pos v = Some (Throws out_of_range, t)
       \<and> reset_pos N t pos = Some (Throws out_of_range, t)
       \<and> flip_pos N t pos = Some (Throws out_of_range, t)
       \<and> index_ref N t pos = Some (Throws out_of_range, t)"
  using assms by (simp add: test_def set_pos_def reset_pos_def flip_pos_def index_ref_def)

theorem out_of_range_unmodified_witness:
  "(2::nat) \<le> 2
   \<and> test 2 [False, True, True, False, False, False, False, False, False] 2
       = Some (Throws out_of_range, [False, True, True, False, False, False, False, False, False])
   \<and> set_pos 2 [False, True, True, False, False, False, False, False, False] 2 True
       = Some (Throws out_of_range, [False, True, True, False, False, False, False, False, False])
   \<and> reset_pos 2 [False, True, True, False, False, False, False, False, False] 2
       = Some (Throws out_of_range, [False, True, True, False, False, False, False, False, False])
   \<and> flip_pos 2 [False, True, True, False, False, False, False, False, False] 2
       = Some (Throws out_of_range, [False, True, True, False, False, False, False, False, False])
   \<and> index_ref 2 [False, True, True, False, False, False, False, False, False] 2
       = Some (Throws out_of_range, [False, True, True, False, False, False, False, False, False])"
  using out_of_range_unmodified[of 2 2 "[False, True, True, False, False, False, False, False, False]" True]
  by simp

text \<open>
  C8, as stated: the handle's \<^verbatim>\<open>operator~\<close> flips the bit and returns the value the bit
  had before. On the empty structure of capacity 1 the bit of position 0 is false before
  the call, and the call returns true.
\<close>

theorem ref_not_counterexample:
  "index_ref 1 (segbitset_empty 1) 0 = Some (Returns 1, segbitset_empty 1)
   \<and> ref_bool 1 (segbitset_empty 1) = Some False
   \<and> ref_not 1 (segbitset_empty 1) = Some (True, [False, True, False, False, False])"
  by code_simp

text \<open>
  C8, amended. For every valid position \<open>pos < N\<close> and every structure, the handle's
  \<^verbatim>\<open>operator~\<close> flips the bit bound to the handle and returns the value the bit has
  after the flip, the negation of the previous value; the other positions keep their bits.
\<close>

theorem ref_not_returns_new_value:
  assumes "0 < N" "length t = 1 + 4 * N" "pos < N"
  shows "\<exists>x b t'. index_ref N t pos = Some (Returns x, t)
           \<and> test N t pos = Some (Returns b, t)
           \<and> ref_not x t = Some (\<not> b, t')
           \<and> test N t' pos = Some (Returns (\<not> b), t')
           \<and> (\<forall>q<N. q \<noteq> pos \<longrightarrow> map_option fst (test N t' q) = map_option fst (test N t q))"
proof -
  let ?b = "leaves 1 N 1 t ! pos"
  from pos_write[OF assms] obtain x where x:
    "find_rec (pos + 1) 1 N 1 = Some x" "rd t x = Some ?b"
    "\<forall>v. \<exists>t'. (wr t x v \<bind> pushup_to_root (x div 2)) = Some t'
                  \<and> length t' = 1 + 4 * N
                  \<and> leaves 1 N 1 t' = (leaves 1 N 1 t)[pos := v]
                  \<and> (summary_inv 1 N 1 t \<longrightarrow> summary_inv 1 N 1 t')" by blast
  from x(3) obtain t' where t': "(wr t x (\<not> ?b) \<bind> pushup_to_root (x div 2)) = Some t'"
    "length t' = 1 + 4 * N" "leaves 1 N 1 t' = (leaves 1 N 1 t)[pos := \<not> ?b]" by blast
  have 1: "index_ref N t pos = Some (Returns x, t)" using x(1) assms(3) by (simp add: index_ref_def)
  have 2: "ref_not x t = Some (\<not> ?b, t')"
    using x(2) t'(1) by (simp add: ref_not_def Let_def bind_eq_Some_conv)
  have 3: "test N t' q = Some (Returns ((leaves 1 N 1 t)[pos := \<not> ?b] ! q), t')" if "q < N" for q
    using test_leaves[OF assms(1) t'(2) that] t'(3) by simp
  have l: "pos < length (leaves 1 N 1 t)" using length_leaves_root[OF assms(1)] assms(3) by simp
  show ?thesis
    using 1 2 3 test_leaves[OF assms(1,2)] l assms(3) by (intro exI[of _ x] exI[of _ ?b] exI[of _ t']) simp
qed

theorem ref_not_returns_new_value_witness:
  "0 < (2::nat) \<and> length [False, True, True, False, False, False, False, False, False] = 1 + 4 * 2 \<and> (0::nat) < 2
   \<and> index_ref 2 [False, True, True, False, False, False, False, False, False] 0
        = Some (Returns 2, [False, True, True, False, False, False, False, False, False])
   \<and> test 2 [False, True, True, False, False, False, False, False, False] 0
        = Some (Returns True, [False, True, True, False, False, False, False, False, False])
   \<and> (\<exists>t'. ref_not 2 [False, True, True, False, False, False, False, False, False] = Some (False, t')
          \<and> test 2 t' 0 = Some (Returns False, t')
          \<and> map_option fst (test 2 t' 1)
               = map_option fst (test 2 [False, True, True, False, False, False, False, False, False] 1))"
proof -
  let ?t = "[False, True, True, False, False, False, False, False, False]"
  from ref_not_returns_new_value[of 2 ?t 0] obtain x b t' where r:
    "index_ref 2 ?t 0 = Some (Returns x, ?t)" "test 2 ?t 0 = Some (Returns b, ?t)"
    "ref_not x ?t = Some (\<not> b, t')" "test 2 t' 0 = Some (Returns (\<not> b), t')"
    "\<forall>q<2. q \<noteq> 0 \<longrightarrow> map_option fst (test 2 t' q) = map_option fst (test 2 ?t q)"
    by auto
  have e: "index_ref 2 ?t 0 = Some (Returns 2, ?t)" "test 2 ?t 0 = Some (Returns True, ?t)"
    by code_simp+
  have "x = 2" "b = True" using r(1,2) e by simp_all
  thus ?thesis using r e by auto
qed

text \<open>
  C9. For every structure \<open>A\<close>, also with both operands of a pairwise operation the same
  object: \<open>A &= A\<close> and \<open>A |= A\<close> leave the bits of \<open>A\<close> unchanged, \<open>A ^= A\<close> makes every
  bit false so that \<^verbatim>\<open>none()\<close> is true, and \<open>~~A\<close> has the bits of \<open>A\<close>. The handle's
  \<^verbatim>\<open>flip()\<close> leaves the summaries above its leaf as they were (C1), and \<^verbatim>\<open>__xor_assign\<close>
  skips a subtree whose summary is false: on the empty structure of capacity 2, after
  \<^verbatim>\<open>s[0].flip()\<close> the root is false and bit 0 is true, and \<open>s ^= s\<close> returns at the root,
  so bit 0 is still true afterwards although \<^verbatim>\<open>none()\<close> is true. Setting the bit through
  the handle's assignment, which recomputes the summaries, \<open>s ^= s\<close> clears it.
\<close>

theorem xor_self_after_handle_flip:
  "index_ref 2 (segbitset_empty 2) 0 = Some (Returns 2, segbitset_empty 2)
   \<and> ref_flip 2 (segbitset_empty 2)
        = Some [False, False, True, False, False, False, False, False, False]
   \<and> to_bitset 2 [False, False, True, False, False, False, False, False, False]
        = Some [True, False]
   \<and> op_xor_assign 2 0 0 (\<lambda>_. [False, False, True, False, False, False, False, False, False])
         \<bind> (\<lambda>h. to_bitset 2 (h 0)) = Some [True, False]
   \<and> op_xor_assign 2 0 0 (\<lambda>_. [False, False, True, False, False, False, False, False, False])
         \<bind> (\<lambda>h. test 2 (h 0) 0 \<bind> (\<lambda>(b, _). Some b)) = Some (Returns True)
   \<and> op_xor_assign 2 0 0 (\<lambda>_. [False, False, True, False, False, False, False, False, False])
         \<bind> (\<lambda>h. none (h 0)) = Some True
   \<and> ref_assign 2 (segbitset_empty 2) True \<bind> (\<lambda>t. op_xor_assign 2 0 0 (\<lambda>_. t))
         \<bind> (\<lambda>h. to_bitset 2 (h 0)) = Some [False, False]"
  by code_simp

text \<open>
  C10. \<^verbatim>\<open>to_bitset(a)\<close> assigns every slot \<open>a[i]\<close>, \<open>i < N\<close>, the bit \<^verbatim>\<open>test(i)\<close> of the
  structure, whatever \<open>a\<close> held before: the result is the same for every initial \<open>a\<close>, and
  is the result of \<^verbatim>\<open>to_bitset()\<close>.
\<close>

theorem to_bitset_into_overwrites:
  assumes "0 < N" "length t = 1 + 4 * N" "length a = N"
  shows "\<exists>e. to_bitset_into N t a = Some e \<and> length e = N
            \<and> (\<forall>i<N. test N t i = Some (Returns (e ! i), t))
            \<and> to_bitset N t = Some e"
  using to_bitset_into_leaves[OF assms] to_bitset_leaves[OF assms(1,2)]
    test_leaves[OF assms(1,2)] length_leaves_root[OF assms(1)]
  by simp

theorem to_bitset_into_overwrites_witness:
  "0 < (2::nat) \<and> length [False, True, True, False, False, False, False, False, False] = 1 + 4 * 2
   \<and> length [False, True] = 2
   \<and> to_bitset_into 2 [False, True, True, False, False, False, False, False, False] [False, True]
        = Some [True, False]
   \<and> test 2 [False, True, True, False, False, False, False, False, False] 0
        = Some (Returns True, [False, True, True, False, False, False, False, False, False])
   \<and> test 2 [False, True, True, False, False, False, False, False, False] 1
        = Some (Returns False, [False, True, True, False, False, False, False, False, False])
   \<and> to_bitset 2 [False, True, True, False, False, False, False, False, False] = Some [True, False]"
proof -
  let ?t = "[False, True, True, False, False, False, False, False, False]"
  from to_bitset_into_overwrites[of 2 ?t "[False, True]"] obtain e where e:
    "to_bitset_into 2 ?t [False, True] = Some e" "length e = 2"
    "\<forall>i<2. test 2 ?t i = Some (Returns (e ! i), ?t)" "to_bitset 2 ?t = Some e"
    by auto
  have t: "test 2 ?t 0 = Some (Returns True, ?t)" "test 2 ?t 1 = Some (Returns False, ?t)"
    by code_simp+
  have "e ! 0 = True" "e ! 1 = False" using e(3) t by (auto simp: less_Suc_eq numeral_2_eq_2)
  hence "e = [True, False]" using list2_eq[OF e(2)] by simp
  thus ?thesis using e t by simp
qed

end
